theory Spec2Isabelle
  imports Main "HOL-Library.Sublist" "HOL-Library.Multiset"
begin

section \<open>JavaScript values used by the crawler\<close>

text \<open>
  A JavaScript \<^verbatim>\<open>number\<close> that the crawler stores in a posting: an integer, or one of
  the non-integer results that \<^verbatim>\<open>parseInt\<close> and \<^verbatim>\<open>Math.round\<close> can produce.
\<close>

datatype jsnum = Num int | NaN | PosInfinity | NegInfinity

text \<open>
  A thrown value. Every error the repository raises itself is \<^verbatim>\<open>new Error(message)\<close>;
  \<^verbatim>\<open>waitUntil\<close> rejects with a bare string. \<open>Undefined\<close> is the value of a
  \<^verbatim>\<open>let error: any\<close> that was never assigned.
\<close>

datatype error = Error string | Rejection string | Undefined

subsection \<open>Characters and strings\<close>

definition is_digit :: "char \<Rightarrow> bool" where
  "is_digit c = (c \<in> set ''0123456789'')"

definition digit_val :: "char \<Rightarrow> nat" where
  "digit_val c = of_char c - 48"

text \<open>White space as \<^verbatim>\<open>String.prototype.trim\<close> and \<^verbatim>\<open>parseInt\<close> strip it (ASCII part).\<close>

definition is_space :: "char \<Rightarrow> bool" where
  "is_space c = (c \<in> set [CHR '' '', CHR 0x09, CHR 0x0A, CHR 0x0B, CHR 0x0C, CHR 0x0D])"

definition trim :: "string \<Rightarrow> string" where
  "trim s = rev (dropWhile is_space (rev (dropWhile is_space s)))"

text \<open>\<^verbatim>\<open>s.includes(t)\<close>: \<open>t\<close> occurs in \<open>s\<close> as a contiguous substring.\<close>

fun str_includes :: "string \<Rightarrow> string \<Rightarrow> bool" where
  "str_includes [] t = (t = [])"
| "str_includes (c # cs) t = (prefix t (c # cs) \<or> str_includes cs t)"

fun digits_value :: "nat \<Rightarrow> string \<Rightarrow> nat" where
  "digits_value acc [] = acc"
| "digits_value acc (c # cs) = digits_value (10 * acc + digit_val c) cs"

text \<open>
  \<^verbatim>\<open>parseInt(s, 10)\<close>: leading white space is skipped, one sign is accepted, the longest
  run of decimal digits is read, and the result is \<^verbatim>\<open>NaN\<close> when that run is empty.
\<close>

definition parseInt10 :: "string \<Rightarrow> jsnum" where
  "parseInt10 s =
     (let t = dropWhile is_space s;
          neg = (t \<noteq> [] \<and> hd t = CHR ''-'');
          u = (if t \<noteq> [] \<and> (hd t = CHR ''-'' \<or> hd t = CHR ''+'') then tl t else t);
          ds = takeWhile is_digit u
      in if ds = [] then NaN
         else if neg then Num (- int (digits_value 0 ds)) else Num (int (digits_value 0 ds)))"

fun show_nat :: "nat \<Rightarrow> string" where
  "show_nat n =
     (if n < 10 then [char_of (48 + n)] else show_nat (n div 10) @ [char_of (48 + n mod 10)])"

declare show_nat.simps [simp del]

text \<open>A JavaScript integer number inside a template string.\<close>

definition show_int :: "int \<Rightarrow> string" where
  "show_int i = (if i < 0 then CHR ''-'' # show_nat (nat (- i)) else show_nat (nat i))"

section \<open>\<^verbatim>\<open>misc/postal-code.ts\<close>\<close>

text \<open>
  The first match of the regular expression \<^verbatim>\<open>/\d{5}/\<close>: the leftmost five consecutive
  ASCII digits of the text.
\<close>

fun match_digits5 :: "string \<Rightarrow> string option" where
  "match_digits5 [] = None"
| "match_digits5 (c # cs) =
     (if 5 \<le> length (c # cs) \<and> list_all is_digit (take 5 (c # cs))
      then Some (take 5 (c # cs)) else match_digits5 cs)"

text \<open>
  \<^verbatim>\<open>getPostalCodeFromAddress(address: string | null | undefined): number | null\<close>.
  \<open>None\<close> as argument is \<^verbatim>\<open>null\<close> or \<^verbatim>\<open>undefined\<close>; \<open>None\<close> as result is \<^verbatim>\<open>null\<close>.
\<close>

definition getPostalCodeFromAddress :: "string option \<Rightarrow> jsnum option" where
  "getPostalCodeFromAddress address =
     (case address of
        None \<Rightarrow> None
      | Some a \<Rightarrow>
          (case match_digits5 a of
             None \<Rightarrow> None
           | Some postalCode \<Rightarrow> Some (parseInt10 postalCode)))"

text \<open>
  \<open>window5 t k\<close>: five consecutive digits start at position \<open>k\<close> of the text \<open>t\<close>.
  \<open>decimal5 m\<close>: the number that the five decimal digits \<open>m\<close> write.
\<close>

definition window5 :: "string \<Rightarrow> nat \<Rightarrow> bool" where
  "window5 t k = (k + 5 \<le> length t \<and> list_all is_digit (take 5 (drop k t)))"

fun decimal5 :: "string \<Rightarrow> int" where
  "decimal5 [a, b, c, d, e] =
     10000 * int (digit_val a) + 1000 * int (digit_val b) + 100 * int (digit_val c)
       + 10 * int (digit_val d) + int (digit_val e)"
| "decimal5 s = 0"

text \<open>
  The street of \<^verbatim>\<open>addCompanyData\<close>, \<^verbatim>\<open>address?.split(/, \d{4,}/)[0]?.trim() ?? null\<close>.
  \<open>comma_digits_here s\<close>: the regular expression \<^verbatim>\<open>/, \d{4,}/\<close> matches at the start of
  \<open>s\<close>; \<open>split_head s\<close>: element 0 of the split, the text before the leftmost match
  (all of \<open>s\<close> when there is none).
\<close>

definition comma_digits_here :: "string \<Rightarrow> bool" where
  "comma_digits_here s = (prefix '', '' s \<and> 4 \<le> length (takeWhile is_digit (drop 2 s)))"

fun split_head :: "string \<Rightarrow> string" where
  "split_head [] = []"
| "split_head (c # cs) = (if comma_digits_here (c # cs) then [] else c # split_head cs)"

definition street_of :: "string option \<Rightarrow> string option" where
  "street_of address = (case address of None \<Rightarrow> None | Some a \<Rightarrow> Some (trim (split_head a)))"

section \<open>\<^verbatim>\<open>misc/request.ts\<close>: exponentialBackoff\<close>

text \<open>
  What \<^verbatim>\<open>exponentialBackoff\<close> does to the outside world, in order: it invokes \<open>fn\<close>, and
  it sleeps for a number of milliseconds.
\<close>

datatype timer_event = FnCall | Delay int

text \<open>
  The asynchronous \<open>fn\<close> is a step on a state \<open>'s\<close> of the world: it returns its value
  (\<open>Inr\<close>) or the error it throws (\<open>Inl\<close>), and the world after it. The \<^verbatim>\<open>while\<close>
  loop is the recursion on \<open>attempt\<close>; \<open>error\<close> is the loop's \<^verbatim>\<open>let error: any\<close>, which
  is \<open>Undefined\<close> until the first \<^verbatim>\<open>catch\<close>. The numbers are integers.
\<close>

function exponentialBackoff_loop ::
  "('s \<Rightarrow> (error + 'a) \<times> 's) \<Rightarrow> int \<Rightarrow> int \<Rightarrow> int \<Rightarrow> error \<Rightarrow> 's
     \<Rightarrow> (error + 'a) \<times> 's \<times> timer_event list" where
  "exponentialBackoff_loop fn maxRetries delay attempt error s =
     (if attempt < maxRetries then
        (case fn s of
           (Inr v, s') \<Rightarrow> (Inr v, s', [FnCall])
         | (Inl err, s') \<Rightarrow>
             if attempt = maxRetries - 1 then (Inl err, s', [FnCall])
             else
               (case exponentialBackoff_loop fn maxRetries delay (attempt + 1) err s' of
                  (r, s'', evs) \<Rightarrow> (r, s'', FnCall # Delay (delay * 2 ^ nat attempt) # evs)))
      else (Inl error, s, []))"
  by pat_completeness auto
termination
  by (relation "measure (\<lambda>(fn, maxRetries, delay, attempt, error, s). nat (maxRetries - attempt))")
     auto

declare exponentialBackoff_loop.simps [simp del]

definition exponentialBackoff ::
  "('s \<Rightarrow> (error + 'a) \<times> 's) \<Rightarrow> int \<Rightarrow> int \<Rightarrow> 's \<Rightarrow> (error + 'a) \<times> 's \<times> timer_event list" where
  "exponentialBackoff fn maxRetries delay s =
     exponentialBackoff_loop fn maxRetries delay 0 Undefined s"

definition fn_calls :: "timer_event list \<Rightarrow> nat" where
  "fn_calls evs = length (filter (\<lambda>e. e = FnCall) evs)"

section \<open>\<^verbatim>\<open>crawler.ts\<close>: the Session\<close>

text \<open>
  A \<^verbatim>\<open>Crawler\<close> object: its two private fields, as handles of the rendering engine.
  \<^verbatim>\<open>recreatePage\<close> assigns the \<open>page\<close> field of the object in place
  (\<^verbatim>\<open>(this as any).page = newPage\<close>); the object itself, which callers hold, and its
  \<open>browser\<close> stay.
\<close>

record crawler =
  browser :: nat
  page :: nat

text \<open>
  What the rendering engine answers during one iteration of \<^verbatim>\<open>goto\<close>'s \<^verbatim>\<open>for\<close> loop.
  \<open>NavResolved status\<close>: the navigation promise wins the race against the crash listener
  and resolves, with the response's HTTP status on a full load (\<open>None\<close>: no response, or
  no status); \<open>NavRejected m\<close>: it rejects with message \<open>m\<close> (a timeout, a network
  error); \<open>NavCrashed\<close>: the crash listener wins.
\<close>

datatype nav_outcome = NavResolved "nat option" | NavRejected string | NavCrashed

record attempt_obs =
  probe_closed :: bool       \<comment> \<open>\<^verbatim>\<open>this.page.isClosed()\<close> in \<^verbatim>\<open>isPageHealthy\<close>\<close>
  probe_evaluates :: bool    \<comment> \<open>\<^verbatim>\<open>page.evaluate(() => document.readyState)\<close> resolves\<close>
  nav :: nav_outcome
  catch_closed :: bool       \<comment> \<open>\<^verbatim>\<open>this.page.isClosed()\<close> in \<^verbatim>\<open>goto\<close>'s \<^verbatim>\<open>catch\<close>\<close>
  recreate_closed :: bool    \<comment> \<open>\<^verbatim>\<open>this.page.isClosed()\<close> in \<^verbatim>\<open>recreatePage\<close>\<close>
  new_page :: "error + nat"  \<comment> \<open>\<^verbatim>\<open>browser.newPage()\<close> and the set-up of the new page\<close>

text \<open>The calls a Session makes on the engine, in order.\<close>

datatype page_event =
    Probe bool
  | Navigate string bool
  | ClosePage nat
  | NewPage "nat option"
  | Sleep int

definition isPageHealthy :: "attempt_obs \<Rightarrow> bool" where
  "isPageHealthy obs = (if probe_closed obs then False else probe_evaluates obs)"

text \<open>
  \<^verbatim>\<open>recreatePage\<close>: the old page is closed unless it is closed already (an error of
  \<^verbatim>\<open>close\<close> is ignored); when the new page cannot be made, the error leaves
  \<^verbatim>\<open>recreatePage\<close> before the \<open>page\<close> field is assigned.
\<close>

definition recreatePage :: "attempt_obs \<Rightarrow> crawler \<Rightarrow> (error + unit) \<times> crawler \<times> page_event list" where
  "recreatePage obs c =
     (let closing = (if \<not> recreate_closed obs then [ClosePage (page c)] else [])
      in case new_page obs of
           Inl e \<Rightarrow> (Inl e, c, closing @ [NewPage None])
         | Inr newPage \<Rightarrow> (Inr (), c\<lparr>page := newPage\<rparr>, closing @ [NewPage (Some newPage)]))"

definition status_text :: "nat option \<Rightarrow> string" where
  "status_text status = (case status of None \<Rightarrow> ''undefined'' | Some n \<Rightarrow> show_nat n)"

text \<open>
  The \<^verbatim>\<open>try\<close> block of one iteration: \<open>Inr ()\<close> when it reaches \<^verbatim>\<open>return\<close>, else
  \<open>Inl\<close> of the \<^verbatim>\<open>errorMessage\<close> the \<^verbatim>\<open>catch\<close> computes.
\<close>

definition goto_attempt :: "attempt_obs \<Rightarrow> string \<Rightarrow> bool \<Rightarrow> (string + unit) \<times> page_event list" where
  "goto_attempt obs url useSpaNavigation =
     (if \<not> isPageHealthy obs then (Inl ''Page is unhealthy, needs recreation'', [Probe False])
      else
        (case nav obs of
           NavCrashed \<Rightarrow>
             (Inl ''Page crashed during navigation'', [Probe True, Navigate url useSpaNavigation])
         | NavRejected m \<Rightarrow> (Inl m, [Probe True, Navigate url useSpaNavigation])
         | NavResolved status \<Rightarrow>
             if useSpaNavigation then (Inr (), [Probe True, Navigate url useSpaNavigation])
             else if status \<noteq> Some 200
               then (Inl (''Failed to load '' @ url @ '': '' @ status_text status),
                     [Probe True, Navigate url useSpaNavigation])
               else (Inr (), [Probe True, Navigate url useSpaNavigation])))"

definition needs_recreation :: "string \<Rightarrow> attempt_obs \<Rightarrow> bool" where
  "needs_recreation errorMessage obs =
     (str_includes errorMessage ''crashed'' \<or> str_includes errorMessage ''closed''
      \<or> str_includes errorMessage ''unhealthy'' \<or> catch_closed obs)"

definition terminal_message :: "string \<Rightarrow> int \<Rightarrow> string \<Rightarrow> string" where
  "terminal_message url maxRetries errorMessage =
     ''Failed to navigate to '' @ url @ '' after '' @ show_int (maxRetries + 1)
       @ '' attempts: '' @ errorMessage"

text \<open>
  The \<^verbatim>\<open>for\<close> loop of \<^verbatim>\<open>goto\<close>, from \<open>attempt\<close> on. \<open>env k\<close> is what the engine
  answers during iteration \<open>k\<close>. The result is the value or the error of \<^verbatim>\<open>goto\<close>, the
  crawler after it, and the engine calls made. When the loop ends without an iteration
  having returned or thrown, \<^verbatim>\<open>goto\<close> returns normally.
\<close>

function goto_loop ::
  "(nat \<Rightarrow> attempt_obs) \<Rightarrow> string \<Rightarrow> bool \<Rightarrow> int \<Rightarrow> int \<Rightarrow> crawler
     \<Rightarrow> (error + unit) \<times> crawler \<times> page_event list" where
  "goto_loop env url useSpaNavigation maxRetries attempt c =
     (if attempt \<le> maxRetries then
        (case goto_attempt (env (nat attempt)) url useSpaNavigation of
           (Inr u, evs) \<Rightarrow> (Inr (), c, evs)
         | (Inl errorMessage, evs) \<Rightarrow>
             if attempt = maxRetries
             then (Inl (Error (terminal_message url maxRetries errorMessage)), c, evs)
             else if needs_recreation errorMessage (env (nat attempt)) then
               (case recreatePage (env (nat attempt)) c of
                  (Inl recreateError, c', revs) \<Rightarrow>
                    if attempt = maxRetries then (Inl (Error errorMessage), c', evs @ revs)
                    else
                      (case goto_loop env url useSpaNavigation maxRetries (attempt + 1) c' of
                         (r, c'', evs') \<Rightarrow>
                           (r, c'', evs @ revs @ Sleep (1000 * 2 ^ nat attempt) # evs'))
                | (Inr u, c', revs) \<Rightarrow>
                    (case goto_loop env url useSpaNavigation maxRetries (attempt + 1) c' of
                       (r, c'', evs') \<Rightarrow>
                         (r, c'', evs @ revs @ Sleep (1000 * 2 ^ nat attempt) # evs')))
             else
               (case goto_loop env url useSpaNavigation maxRetries (attempt + 1) c of
                  (r, c'', evs') \<Rightarrow> (r, c'', evs @ Sleep (1000 * 2 ^ nat attempt) # evs')))
      else (Inr (), c, []))"
  by pat_completeness auto
termination
  by (relation "measure (\<lambda>(env, url, spa, maxRetries, attempt, c). nat (maxRetries + 1 - attempt))")
     auto

declare goto_loop.simps [simp del]

definition goto :: "(nat \<Rightarrow> attempt_obs) \<Rightarrow> string \<Rightarrow> bool \<Rightarrow> int \<Rightarrow> crawler
     \<Rightarrow> (error + unit) \<times> crawler \<times> page_event list" where
  "goto env url useSpaNavigation maxRetries c =
     goto_loop env (if prefix ''http'' url then url else ''http://'' @ url)
       useSpaNavigation maxRetries 0 c"

subsection \<open>Reading a run of \<^verbatim>\<open>goto\<close>\<close>

text \<open>
  The recovery between a failed iteration and the next one: the page is recreated when
  the message or the page says so. This is the part of \<open>goto_loop\<close> between the terminal
  check and the sleep, as a function of its own.
\<close>

definition goto_recover :: "attempt_obs \<Rightarrow> string \<Rightarrow> crawler \<Rightarrow> crawler \<times> page_event list" where
  "goto_recover obs errorMessage c =
     (if needs_recreation errorMessage obs
      then (case recreatePage obs c of (r, c', revs) \<Rightarrow> (c', revs)) else (c, []))"

definition normalize_url :: "string \<Rightarrow> string" where
  "normalize_url url = (if prefix ''http'' url then url else ''http://'' @ url)"

definition attempt_fails :: "attempt_obs \<Rightarrow> string \<Rightarrow> bool \<Rightarrow> bool" where
  "attempt_fails obs url spa = isl (fst (goto_attempt obs url spa))"

definition failure_message :: "attempt_obs \<Rightarrow> string \<Rightarrow> bool \<Rightarrow> string" where
  "failure_message obs url spa = (case fst (goto_attempt obs url spa) of Inl m \<Rightarrow> m | Inr u \<Rightarrow> [])"

text \<open>All of the iterations \<open>0, \<dots>, maxRetries\<close> fail.\<close>

definition all_attempts_fail :: "(nat \<Rightarrow> attempt_obs) \<Rightarrow> string \<Rightarrow> bool \<Rightarrow> int \<Rightarrow> bool" where
  "all_attempts_fail env url spa maxRetries =
     list_all (\<lambda>k. attempt_fails (env k) url spa) [0..<nat (maxRetries + 1)]"

text \<open>The answer of the most recent health probe in a run.\<close>

fun last_probe :: "page_event list \<Rightarrow> bool option" where
  "last_probe [] = None"
| "last_probe (e # es) =
     (case last_probe es of
        Some b \<Rightarrow> Some b
      | None \<Rightarrow> (case e of Probe b \<Rightarrow> Some b | _ \<Rightarrow> None))"

text \<open>Every navigation of a run comes directly after a health probe that answered healthy.\<close>

fun probe_before_navigate :: "page_event list \<Rightarrow> bool" where
  "probe_before_navigate [] = True"
| "probe_before_navigate (Navigate u s # es) = False"
| "probe_before_navigate (Probe True # Navigate u s # es) = probe_before_navigate es"
| "probe_before_navigate (e # es) = probe_before_navigate es"

text \<open>
  After a health probe that answered unhealthy there is no navigation until the next
  probe, and when a next probe comes, exactly one new page was asked for in between.
  The state is \<open>None\<close> outside such a stretch and \<open>Some n\<close> inside one, \<open>n\<close> counting the
  \<open>NewPage\<close> calls seen in it.
\<close>

fun unhealthy_recreates :: "nat option \<Rightarrow> page_event list \<Rightarrow> bool" where
  "unhealthy_recreates st [] = True"
| "unhealthy_recreates None (Probe b # es) =
     (if b then unhealthy_recreates None es else unhealthy_recreates (Some 0) es)"
| "unhealthy_recreates None (e # es) = unhealthy_recreates None es"
| "unhealthy_recreates (Some n) (Navigate u s # es) = False"
| "unhealthy_recreates (Some n) (NewPage h # es) = unhealthy_recreates (Some (n + 1)) es"
| "unhealthy_recreates (Some n) (Probe b # es) =
     (n = 1 \<and> (if b then unhealthy_recreates None es else unhealthy_recreates (Some 0) es))"
| "unhealthy_recreates (Some n) (e # es) = unhealthy_recreates (Some n) es"





text \<open>Engine answers used as concrete inputs.\<close>

definition obs_ok :: attempt_obs where
  "obs_ok = \<lparr>probe_closed = False, probe_evaluates = True, nav = NavResolved (Some 200),
            catch_closed = False, recreate_closed = False, new_page = Inr 1\<rparr>"

definition obs_timeout :: attempt_obs where
  "obs_timeout = obs_ok\<lparr>nav := NavRejected ''Timeout 30000ms exceeded''\<rparr>"


definition env_always_timeout :: "nat \<Rightarrow> attempt_obs" where
  "env_always_timeout k = obs_timeout"

definition env_third_time :: "nat \<Rightarrow> attempt_obs" where
  "env_third_time k = (if k < 2 then obs_timeout else obs_ok)"





section \<open>\<^verbatim>\<open>misc/array.ts\<close>: groupBy\<close>

text \<open>
  The result object of \<^verbatim>\<open>groupBy\<close> is a list of (key, group) pairs in the order the keys
  were first seen; \<open>push_group\<close> is the body of the \<^verbatim>\<open>reduce\<close> callback: a key with no
  group yet gets the empty group, then the item is pushed on the key's group.
\<close>

fun set_group :: "'k \<Rightarrow> 'a list \<Rightarrow> ('k \<times> 'a list) list \<Rightarrow> ('k \<times> 'a list) list" where
  "set_group k g [] = [(k, g)]"
| "set_group k g ((k', g') # result) =
     (if k' = k then (k, g) # result else (k', g') # set_group k g result)"

definition push_group :: "'k \<Rightarrow> 'a \<Rightarrow> ('k \<times> 'a list) list \<Rightarrow> ('k \<times> 'a list) list" where
  "push_group groupKey item result =
     (case map_of result groupKey of
        None \<Rightarrow> set_group groupKey ([] @ [item]) result
      | Some g \<Rightarrow> set_group groupKey (g @ [item]) result)"

fun groupBy_reduce ::
  "('a \<Rightarrow> nat \<Rightarrow> 'k) \<Rightarrow> 'a list \<Rightarrow> nat \<Rightarrow> ('k \<times> 'a list) list \<Rightarrow> ('k \<times> 'a list) list" where
  "groupBy_reduce getGroup [] index result = result"
| "groupBy_reduce getGroup (item # items) index result =
     groupBy_reduce getGroup items (index + 1) (push_group (getGroup item index) item result)"

definition groupBy :: "'a list \<Rightarrow> ('a \<Rightarrow> nat \<Rightarrow> 'k) \<Rightarrow> ('k \<times> 'a list) list" where
  "groupBy array getGroup = groupBy_reduce getGroup array 0 []"

section \<open>\<^verbatim>\<open>arbeitsagentur-crawler.ts\<close>: postings and their enrichment\<close>

text \<open>The type \<^verbatim>\<open>Posting\<close>; \<open>None\<close> is \<^verbatim>\<open>null\<close> (for \<open>from_search_url\<close>: not set).\<close>

record posting =
  company_name :: string
  city :: string
  arbeitsagentur_id :: string
  start_date :: "string option"
  post_date :: "string option"
  raw_job_title :: "string option"
  postal_code :: "jsnum option"
  street :: "string option"
  email :: "string option"
  phone :: "string option"
  website :: "string option"
  company_size :: "jsnum option"
  from_search_url :: "string option"

text \<open>
  The text helpers that \<^verbatim>\<open>addCompanyData\<close> applies to the description and to the company
  size: \<^verbatim>\<open>findEmailInText\<close>, \<^verbatim>\<open>findPhoneNumberInText\<close>, and \<^verbatim>\<open>Math.round(+s)\<close>
  (JavaScript's conversion of a string to a floating-point number, rounded). They are
  parameters here: every statement below holds whatever they compute.
\<close>

record text_tools =
  findEmailInText :: "string \<Rightarrow> string option"
  findPhoneNumberInText :: "string \<Rightarrow> string option"
  round_number :: "string \<Rightarrow> jsnum"

text \<open>
  What the detail page of one posting answers: the engine answers for the in-app and
  for the full-load navigation (by round of the outer backoff and by attempt inside
  \<^verbatim>\<open>goto\<close>), and the four reads of the \<^verbatim>\<open>Promise.all\<close>, each a value (\<open>None\<close>: no such
  element) or the error it throws.
\<close>

record detail_env =
  spa_obs :: "nat \<Rightarrow> nat \<Rightarrow> attempt_obs"
  full_obs :: "nat \<Rightarrow> nat \<Rightarrow> attempt_obs"
  address_read :: "error + string option"
  beschreibung_read :: "error + string option"
  link_read :: "error + string option"
  size_read :: "error + string option"

definition detail_url :: "posting \<Rightarrow> string" where
  "detail_url p = ''https://www.arbeitsagentur.de/jobsuche/jobdetail/'' @ arbeitsagentur_id p"

text \<open>
  The callback given to \<^verbatim>\<open>exponentialBackoff\<close>: in-app navigation with 2 retries, and on
  its failure full-load navigation with 3. The state is the crawler of the partition
  (\<open>None\<close>: \<^verbatim>\<open>this.companyCrawlers[+crawlerIndex]\<close> is \<^verbatim>\<open>undefined\<close>, on which
  \<^verbatim>\<open>crawler.goto\<close> is a \<^verbatim>\<open>TypeError\<close>) and the number of the round.
\<close>

definition navigate_once ::
  "detail_env \<Rightarrow> string \<Rightarrow> crawler option \<times> nat \<Rightarrow> (error + unit) \<times> (crawler option \<times> nat)" where
  "navigate_once e url st =
     (case st of
        (None, r) \<Rightarrow>
          (Inl (Error ''Cannot read properties of undefined (reading 'goto')''), (None, r + 1))
      | (Some c, r) \<Rightarrow>
          (case goto (spa_obs e r) url True 2 c of
             (Inr u, c', evs) \<Rightarrow> (Inr (), (Some c', r + 1))
           | (Inl err, c', evs) \<Rightarrow>
               (case goto (full_obs e r) url False 3 c' of
                  (res, c'', evs') \<Rightarrow> (res, (Some c'', r + 1)))))"

text \<open>JavaScript truthiness of a \<^verbatim>\<open>string | null | undefined\<close>.\<close>

definition truthy :: "string option \<Rightarrow> bool" where
  "truthy s = (case s of None \<Rightarrow> False | Some t \<Rightarrow> t \<noteq> [])"

text \<open>The \<^verbatim>\<open>Promise.all\<close> of the four reads: it rejects when one of them does.\<close>

definition read_details ::
  "detail_env \<Rightarrow> error + (string option \<times> string option \<times> string option \<times> string option)" where
  "read_details e =
     (case address_read e of
        Inl x \<Rightarrow> Inl x
      | Inr address \<Rightarrow>
          (case beschreibung_read e of
             Inl x \<Rightarrow> Inl x
           | Inr beschreibung \<Rightarrow>
               (case link_read e of
                  Inl x \<Rightarrow> Inl x
                | Inr link \<Rightarrow>
                    (case size_read e of
                       Inl x \<Rightarrow> Inl x
                     | Inr companySize \<Rightarrow> Inr (address, beschreibung, link, companySize)))))"

text \<open>The assignments after the \<^verbatim>\<open>Promise.all\<close>; none of them can throw.\<close>

definition fill_details ::
  "text_tools \<Rightarrow> posting \<Rightarrow> string option \<times> string option \<times> string option \<times> string option
     \<Rightarrow> posting" where
  "fill_details tools posting d =
     (case d of (address, beschreibung, link, companySize) \<Rightarrow>
        posting
          \<lparr>postal_code :=
             (case getPostalCodeFromAddress address of
                Some n \<Rightarrow> Some n
              | None \<Rightarrow> getPostalCodeFromAddress beschreibung),
           street := street_of address,
           email :=
             (case beschreibung of
                Some b \<Rightarrow> if b \<noteq> [] then findEmailInText tools b else email posting
              | None \<Rightarrow> email posting),
           phone :=
             (case beschreibung of
                Some b \<Rightarrow> if b \<noteq> [] then findPhoneNumberInText tools b else phone posting
              | None \<Rightarrow> phone posting),
           website := link,
           company_size :=
             (case companySize of
                Some t \<Rightarrow>
                  if t \<noteq> [] then Some (round_number tools (takeWhile (\<lambda>ch. ch \<noteq> CHR '' '') t))
                  else None
              | None \<Rightarrow> None)\<rparr>)"

text \<open>
  The second \<^verbatim>\<open>try\<close> block of the loop body (lines 161-180): an error of the reads is
  caught and leaves the posting as it was.
\<close>

definition extract_details :: "text_tools \<Rightarrow> detail_env \<Rightarrow> posting \<Rightarrow> posting" where
  "extract_details tools e posting =
     (case read_details e of
        Inl error \<Rightarrow> posting
      | Inr d \<Rightarrow> fill_details tools posting d)"

text \<open>
  The state of the worker of one partition: its crawler, \<^verbatim>\<open>requestCount\<close>, the number of
  calls of \<^verbatim>\<open>cleanupMemory\<close> (which never throws and changes nothing of the crawler
  object), and the visits made so far: for each posting worked, the browser of the
  crawler on which \<^verbatim>\<open>crawler.goto(url, true, 2)\<close> is called (\<open>None\<close>: the crawler is
  \<^verbatim>\<open>undefined\<close>) and the \<open>url\<close>. The browser of a \<^verbatim>\<open>Crawler\<close> never changes; it tells the
  sessions of a pool apart.
\<close>

record worker =
  w_crawler :: "crawler option"
  requestCount :: nat
  cleanups :: nat
  visits :: "(nat option \<times> string) list"

text \<open>
  One iteration of \<^verbatim>\<open>for (const posting of postings)\<close>. When the navigation fails
  after all retries, the \<^verbatim>\<open>catch\<close> continues with the next posting: the posting is
  untouched and \<^verbatim>\<open>requestCount\<close> is not incremented.
\<close>

definition enrich_posting ::
  "text_tools \<Rightarrow> detail_env \<Rightarrow> worker \<Rightarrow> posting \<Rightarrow> posting \<times> worker" where
  "enrich_posting tools e w posting =
     (let w1 = (if requestCount w mod 10 = 0 \<and> requestCount w > 0
                then w\<lparr>cleanups := cleanups w + 1\<rparr> else w)
      in case exponentialBackoff (navigate_once e (detail_url posting)) 2 3000 (w_crawler w1, 0) of
           (Inl err, (c', r), evs) \<Rightarrow>
             (posting,
              w1\<lparr>w_crawler := c',
                 visits := visits w1 @ [(map_option browser (w_crawler w1), detail_url posting)]\<rparr>)
         | (Inr u, (c', r), evs) \<Rightarrow>
             (extract_details tools e posting,
              w1\<lparr>w_crawler := c', requestCount := requestCount w1 + 1,
                 visits := visits w1 @ [(map_option browser (w_crawler w1), detail_url posting)]\<rparr>))"

text \<open>
  The postings of a batch are objects that \<^verbatim>\<open>addCompanyData\<close> mutates in place. The batch
  array is the store; a reference to a posting is its position in the batch. A partition
  is a list of references, worked through in order by one worker.
\<close>

fun enrich_partition ::
  "text_tools \<Rightarrow> (nat \<Rightarrow> detail_env) \<Rightarrow> nat list \<Rightarrow> worker \<Rightarrow> posting list
     \<Rightarrow> posting list \<times> worker" where
  "enrich_partition tools envs [] w store = (store, w)"
| "enrich_partition tools envs (ref # refs) w store =
     (case enrich_posting tools (envs ref) w (store ! ref) of
        (posting', w') \<Rightarrow> enrich_partition tools envs refs w' (store[ref := posting']))"

text \<open>
  \<^verbatim>\<open>i % this.companyCrawlers.length\<close>: \<open>None\<close> is \<^verbatim>\<open>NaN\<close>, the remainder by a pool size of
  \<open>0\<close>. \<^verbatim>\<open>this.companyCrawlers[+crawlerIndex]\<close> is \<^verbatim>\<open>undefined\<close> for \<^verbatim>\<open>NaN\<close>.
\<close>

definition group_key :: "nat \<Rightarrow> nat \<Rightarrow> nat option" where
  "group_key poolSize i = (if poolSize = 0 then None else Some (i mod poolSize))"

definition crawler_at :: "crawler list \<Rightarrow> nat option \<Rightarrow> crawler option" where
  "crawler_at pool crawlerIndex =
     (case crawlerIndex of
        None \<Rightarrow> None
      | Some k \<Rightarrow> if k < length pool then Some (pool ! k) else None)"

definition store_crawler :: "crawler list \<Rightarrow> nat option \<Rightarrow> crawler option \<Rightarrow> crawler list" where
  "store_crawler pool crawlerIndex c =
     (case (crawlerIndex, c) of (Some k, Some c') \<Rightarrow> pool[k := c'] | _ \<Rightarrow> pool)"

text \<open>
  \<^verbatim>\<open>addCompanyData\<close>. \<open>envs ref\<close> is what the detail page of the posting at \<open>ref\<close>
  answers. The partitions run interleaved under \<^verbatim>\<open>Promise.all\<close>; each works on its own
  crawler and on its own postings, and the model runs them one after the other. The
  result is the batch and the pool after all partitions are done, and the visits of each
  partition, in the order of \<^verbatim>\<open>Object.entries(groupedPostings)\<close>.
\<close>

definition run_partition ::
  "text_tools \<Rightarrow> (nat \<Rightarrow> detail_env) \<Rightarrow> nat option \<times> nat list
     \<Rightarrow> posting list \<times> crawler list \<times> (nat option \<times> string) list list
     \<Rightarrow> posting list \<times> crawler list \<times> (nat option \<times> string) list list" where
  "run_partition tools envs entry st =
     (case entry of (crawlerIndex, refs) \<Rightarrow>
        (case st of (store, pool, log) \<Rightarrow>
           (case enrich_partition tools envs refs
                   \<lparr>w_crawler = crawler_at pool crawlerIndex, requestCount = 0, cleanups = 0,
                    visits = []\<rparr> store of
              (store', w) \<Rightarrow>
                (store', store_crawler pool crawlerIndex (w_crawler w), log @ [visits w]))))"

definition addCompanyData ::
  "text_tools \<Rightarrow> (nat \<Rightarrow> detail_env) \<Rightarrow> crawler list \<Rightarrow> posting list
     \<Rightarrow> posting list \<times> crawler list \<times> (nat option \<times> string) list list" where
  "addCompanyData tools envs companyCrawlers postings =
     (let groupedPostings =
            groupBy [0..<length postings] (\<lambda>posting i. group_key (length companyCrawlers) i)
      in fold (run_partition tools envs) groupedPostings (postings, companyCrawlers, []))"

subsection \<open>Reading a run of \<^verbatim>\<open>addCompanyData\<close>\<close>

text \<open>The items of \<open>items\<close> (at positions \<open>idx\<close> onwards) that \<open>getGroup\<close> sends to key \<open>k\<close>.\<close>

fun members :: "('a \<Rightarrow> nat \<Rightarrow> 'k) \<Rightarrow> 'k \<Rightarrow> 'a list \<Rightarrow> nat \<Rightarrow> 'a list" where
  "members f k [] idx = []"
| "members f k (x # xs) idx =
     (if f x idx = k then x # members f k xs (idx + 1) else members f k xs (idx + 1))"

text \<open>Two states of the navigation callback in the same round, both with or both without a crawler.\<close>

definition same_definedness :: "crawler option \<times> nat \<Rightarrow> crawler option \<times> nat \<Rightarrow> bool" where
  "same_definedness s t = (snd s = snd t \<and> (fst s = None) = (fst t = None))"

definition key_ok :: "nat \<Rightarrow> nat option \<Rightarrow> bool" where
  "key_ok n k = (case k of None \<Rightarrow> False | Some i \<Rightarrow> i < n)"

text \<open>
  A worker at the start of a partition. Which crawler it holds does not matter for what
  becomes of a posting, only whether it holds one (the pool is not empty).
\<close>

definition pristine :: "bool \<Rightarrow> worker" where
  "pristine has_crawler =
     \<lparr>w_crawler = (if has_crawler then Some \<lparr>browser = 0, page = 0\<rparr> else None),
      requestCount = 0, cleanups = 0, visits = []\<rparr>"

text \<open>
  The navigation to the detail page of \<open>p\<close> fails for good: the outer backoff of two
  rounds, each an in-app navigation and a full-load fallback, ends in an error.
\<close>

definition navigation_fails :: "detail_env \<Rightarrow> bool \<Rightarrow> posting \<Rightarrow> bool" where
  "navigation_fails e has_crawler p =
     isl (fst (exponentialBackoff (navigate_once e (detail_url p)) 2 3000
                 (w_crawler (pristine has_crawler), 0)))"

text \<open>The enrichment of \<open>p\<close> fails: its navigation does, or one of the four reads throws.\<close>

definition enrichment_fails :: "detail_env \<Rightarrow> bool \<Rightarrow> posting \<Rightarrow> bool" where
  "enrichment_fails e has_crawler p = (navigation_fails e has_crawler p \<or> isl (read_details e))"

text \<open>What one iteration of the worker loop makes of \<open>p\<close>.\<close>

definition enriched :: "text_tools \<Rightarrow> detail_env \<Rightarrow> bool \<Rightarrow> posting \<Rightarrow> posting" where
  "enriched tools e has_crawler p = fst (enrich_posting tools e (pristine has_crawler) p)"

text \<open>The fields that only the enrichment fills are all \<^verbatim>\<open>null\<close>.\<close>

definition details_null :: "posting \<Rightarrow> bool" where
  "details_null p =
     (postal_code p = None \<and> street p = None \<and> email p = None \<and> phone p = None
      \<and> website p = None \<and> company_size p = None)"

text \<open>A postal code as \<^verbatim>\<open>getPostalCodeFromAddress\<close> can return it.\<close>

definition postal_ok :: "jsnum option \<Rightarrow> bool" where
  "postal_ok x = (case x of None \<Rightarrow> True | Some (Num n) \<Rightarrow> 0 \<le> n \<and> n \<le> 99999 | Some _ \<Rightarrow> False)"

text \<open>Concrete inputs: a batch of ten postings as the listing extractor leaves them, a pool
  of three crawlers, and detail pages of which the one of posting 4 never loads.\<close>

definition no_tools :: text_tools where
  "no_tools = \<lparr>findEmailInText = (\<lambda>s. None), findPhoneNumberInText = (\<lambda>s. None),
               round_number = (\<lambda>s. NaN)\<rparr>"

definition listed :: "nat \<Rightarrow> posting" where
  "listed i =
     \<lparr>company_name = ''Firma'', city = ''Berlin'', arbeitsagentur_id = show_nat i,
      start_date = None, post_date = None, raw_job_title = None, postal_code = None,
      street = None, email = None, phone = None, website = None, company_size = None,
      from_search_url = None\<rparr>"

definition batch10 :: "posting list" where
  "batch10 = map listed [0..<10]"

definition pool3 :: "crawler list" where
  "pool3 = [\<lparr>browser = 0, page = 0\<rparr>, \<lparr>browser = 1, page = 0\<rparr>, \<lparr>browser = 2, page = 0\<rparr>]"

definition page_fine :: detail_env where
  "page_fine =
     \<lparr>spa_obs = (\<lambda>r k. obs_ok), full_obs = (\<lambda>r k. obs_ok),
      address_read = Inr (Some ''Musterstr. 1, 12345 Berlin''),
      beschreibung_read = Inr None, link_read = Inr None, size_read = Inr None\<rparr>"

definition page_dead :: detail_env where
  "page_dead = page_fine\<lparr>spa_obs := (\<lambda>r k. obs_timeout), full_obs := (\<lambda>r k. obs_timeout)\<rparr>"

definition page_zero :: detail_env where
  "page_zero = page_fine\<lparr>address_read := Inr (Some ''Postfach 00000'')\<rparr>"

definition pages_fail4 :: "nat \<Rightarrow> detail_env" where
  "pages_fail4 j = (if j = 4 then page_dead else page_fine)"

definition page_broken :: detail_env where
  "page_broken = page_fine\<lparr>link_read := Inl (Error ''Target page, context or browser has been closed'')\<rparr>"

definition pages_mixed :: "nat \<Rightarrow> detail_env" where
  "pages_mixed j = (if j = 1 then page_broken else if j = 4 then page_dead else page_fine)"

section \<open>The listing page\<close>

text \<open>
  The document of a page as the crawler can see it: its elements in document order, each
  with its id, tag, rendered text, \<^verbatim>\<open>title\<close> and \<^verbatim>\<open>href\<close>, the number of its node, and the
  nodes of its ancestors, nearest first. \<open>alive\<close> is false for a page that has crashed or
  is closed: every call on such a page throws.
\<close>

record element =
  el_id :: string
  el_tag :: string
  innerText :: string
  title :: string
  href :: string
  node :: nat
  ancestors :: "nat list"

record page_state =
  alive :: bool
  dom :: "element list"

definition page_gone :: error where
  "page_gone = Error ''Target page, context or browser has been closed''"

text \<open>\<^verbatim>\<open>getTextWithId\<close> and \<^verbatim>\<open>getTitleAttrWithId\<close>: \<^verbatim>\<open>page.$('#id')\<close>, then \<^verbatim>\<open>element?.evaluate\<close>.\<close>

definition getTextWithId :: "page_state \<Rightarrow> string \<Rightarrow> error + string option" where
  "getTextWithId ps ident =
     (if \<not> alive ps then Inl page_gone
      else Inr (map_option innerText (find (\<lambda>e. el_id e = ident) (dom ps))))"

definition getTitleAttrWithId :: "page_state \<Rightarrow> string \<Rightarrow> error + string option" where
  "getTitleAttrWithId ps ident =
     (if \<not> alive ps then Inl page_gone
      else Inr (map_option title (find (\<lambda>e. el_id e = ident) (dom ps))))"

text \<open>\<^verbatim>\<open>getLinkItem\<close>: \<^verbatim>\<open>page.$('a[id="..."]')\<close>; a missing link is an error.\<close>

definition getLinkItem :: "page_state \<Rightarrow> string \<Rightarrow> error + element" where
  "getLinkItem ps ident =
     (if \<not> alive ps then Inl page_gone
      else (case find (\<lambda>e. el_tag e = ''a'' \<and> el_id e = ident) (dom ps) of
              None \<Rightarrow> Inl (Error (''Link with selector '' @ ident @ '' not found''))
            | Some link \<Rightarrow> Inr link))"

text \<open>\<open>e\<close> is the node \<open>g\<close> or lies below it.\<close>

definition lies_under :: "nat \<Rightarrow> element \<Rightarrow> bool" where
  "lies_under g e = (node e = g \<or> g \<in> set (ancestors e))"

text \<open>
  \<^verbatim>\<open>deleteOuterElement(item, parent)\<close>: walk \<open>parent\<close> levels up from the item, an error
  when there is no parent at some level, and remove the element reached with all that is
  below it.
\<close>

definition deleteOuterElement :: "page_state \<Rightarrow> element \<Rightarrow> nat \<Rightarrow> (error + unit) \<times> page_state" where
  "deleteOuterElement ps item parent =
     (if \<not> alive ps then (Inl page_gone, ps)
      else if length (ancestors item) < parent
        then (Inl (Error (''Parent element not found at depth ''
                            @ show_nat (length (ancestors item) + 1))), ps)
      else
        (let target = (if parent = 0 then node item else ancestors item ! (parent - 1))
         in (Inr (), ps\<lparr>dom := filter (\<lambda>e. \<not> lies_under target e) (dom ps)\<rparr>)))"

text \<open>\<^verbatim>\<open>s.replace(pattern, replacement)\<close> with a string pattern: the first occurrence.\<close>

fun replace_first :: "string \<Rightarrow> string \<Rightarrow> string \<Rightarrow> string" where
  "replace_first pat rep [] = (if pat = [] then rep else [])"
| "replace_first pat rep (c # cs) =
     (if prefix pat (c # cs) then rep @ drop (length pat) (c # cs)
      else c # replace_first pat rep cs)"

text \<open>\<^verbatim>\<open>linkUrl.split('/').pop()\<close>: the text after the last slash.\<close>

definition last_segment :: "string \<Rightarrow> string" where
  "last_segment s = rev (takeWhile (\<lambda>c. c \<noteq> CHR ''/'') (rev s))"

definition entry_id :: "nat \<Rightarrow> string \<Rightarrow> string" where
  "entry_id i field = ''eintrag-'' @ show_nat i @ ''-'' @ field"

definition item_id :: "nat \<Rightarrow> string" where
  "item_id i = ''ergebnisliste-item-'' @ show_nat i"

text \<open>
  \<^verbatim>\<open>readArbeitsagenturPosting(i)\<close> on the listing page \<open>ps\<close>: the page after it, and
  \<open>Inr None\<close> for \<^verbatim>\<open>undefined\<close> (no such row), \<open>Inr (Some posting)\<close> for the posting, or
  \<open>Inl\<close> of the error thrown. \<open>toISOString\<close> stands for
  \<^verbatim>\<open>new Date(+s.slice(6, 10), +s.slice(3, 5) - 1, +s.slice(0, 2)).toISOString()\<close>, which
  depends on the time zone of the process and throws a \<^verbatim>\<open>RangeError\<close> on an invalid date;
  the umlaut of the date prefix is its two UTF-8 bytes.
\<close>

definition date_prefix :: string where
  "date_prefix = ''Ver'' @ [CHR 0xC3, CHR 0xB6] @ ''ffentlichungsdatum: ''"

text \<open>The \<^verbatim>\<open>Promise.all\<close> of the five reads of the row.\<close>

definition read_fields ::
  "nat \<Rightarrow> page_state
     \<Rightarrow> error + (string option \<times> string option \<times> string option \<times> string option \<times> element)" where
  "read_fields i ps =
     (case getTextWithId ps (entry_id i ''beruf'') of
        Inl e \<Rightarrow> Inl e
      | Inr jobName \<Rightarrow>
          (case getTextWithId ps (entry_id i ''arbeitsort'') of
             Inl e \<Rightarrow> Inl e
           | Inr companyLocation \<Rightarrow>
               (case getTextWithId ps (entry_id i ''eintrittsdatum'') of
                  Inl e \<Rightarrow> Inl e
                | Inr startDate \<Rightarrow>
                    (case getTitleAttrWithId ps (entry_id i ''veroeffentlichungsdatum'') of
                       Inl e \<Rightarrow> Inl e
                     | Inr postDate \<Rightarrow>
                         (case getLinkItem ps (item_id i) of
                            Inl e \<Rightarrow> Inl e
                          | Inr linkItem \<Rightarrow>
                              Inr (jobName, companyLocation, startDate, postDate, linkItem))))))"

text \<open>\<^verbatim>\<open>postDate ? postDate.replace('Ver\<dots>ffentlichungsdatum: ', '') : null\<close>.\<close>

definition cleanPostDate :: "string option \<Rightarrow> string option" where
  "cleanPostDate postDate =
     (case postDate of
        Some t \<Rightarrow> if t \<noteq> [] then Some (replace_first date_prefix [] t) else None
      | None \<Rightarrow> None)"

text \<open>
  The object literal that is returned, its fields in the order they are evaluated:
  \<^verbatim>\<open>companyLocation!.replace\<close> throws a \<^verbatim>\<open>TypeError\<close> when there is no location element, and
  \<^verbatim>\<open>date.toISOString()\<close> throws on an invalid date.
\<close>

definition build_posting ::
  "(string \<Rightarrow> error + string) \<Rightarrow> string \<Rightarrow> string option \<Rightarrow> string option \<Rightarrow> string option
     \<Rightarrow> string option \<Rightarrow> string \<Rightarrow> error + posting" where
  "build_posting toISOString companyName jobName companyLocation startDate cleanDate linkUrl =
     (case companyLocation of
        None \<Rightarrow> Inl (Error ''Cannot read properties of undefined (reading 'replace')'')
      | Some location \<Rightarrow>
          (case (case cleanDate of
                   Some t \<Rightarrow> if t \<noteq> [] then map_sum id Some (toISOString t) else Inr None
                 | None \<Rightarrow> Inr None) of
             Inl e \<Rightarrow> Inl e
           | Inr isoDate \<Rightarrow>
               Inr \<lparr>company_name = trim (replace_first (''Arbeitgeber:'' @ [CHR 0x0A]) [] companyName),
                    city = trim (replace_first (''Arbeitsort:'' @ [CHR 0x0A]) [] location),
                    arbeitsagentur_id = last_segment linkUrl,
                    start_date = map_option trim startDate,
                    post_date = isoDate,
                    raw_job_title =
                      map_option (replace_first (''Berufsbezeichnung:'' @ [CHR 0x0A]) []) jobName,
                    postal_code = None, street = None, email = None, phone = None,
                    website = None, company_size = None, from_search_url = None\<rparr>))"

definition readArbeitsagenturPosting ::
  "(string \<Rightarrow> error + string) \<Rightarrow> nat \<Rightarrow> page_state \<Rightarrow> (error + posting option) \<times> page_state" where
  "readArbeitsagenturPosting toISOString i ps =
     (case getTextWithId ps (entry_id i ''firma'') of
        Inl e \<Rightarrow> (Inl e, ps)
      | Inr None \<Rightarrow> (Inr None, ps)
      | Inr (Some companyName) \<Rightarrow>
          (case read_fields i ps of
             Inl e \<Rightarrow> (Inl e, ps)
           | Inr (jobName, companyLocation, startDate, postDate, linkItem) \<Rightarrow>
               (case deleteOuterElement ps linkItem 2 of
                  (Inl e, ps') \<Rightarrow> (Inl e, ps')
                | (Inr u, ps') \<Rightarrow>
                    (case build_posting toISOString companyName jobName companyLocation startDate
                            (cleanPostDate postDate) (href linkItem) of
                       Inl e \<Rightarrow> (Inl e, ps')
                     | Inr found \<Rightarrow> (Inr (Some found), ps')))))"

section \<open>\<^verbatim>\<open>misc/flow-control.ts\<close> and \<^verbatim>\<open>loadNextPage\<close>\<close>

text \<open>
  \<^verbatim>\<open>waitUntil(condition)\<close>, given the source text of the condition, which the timeout
  message quotes, and what the condition answers at its first evaluation, at the
  evaluations that the interval timer makes before the timeout has passed, and at the
  evaluation made by the tick that finds the timeout passed: that tick rejects and then
  evaluates the condition once more. Each evaluation is taken to settle before the next
  timer fires.

  The result is how the promise of \<^verbatim>\<open>waitUntil\<close> settles (\<open>None\<close>: it never does) and the
  error left unhandled, if any. An error of the first evaluation rejects the promise. An
  error of an evaluation inside the timer callback rejects the promise of that callback,
  which nothing awaits or catches: it is an unhandled rejection, on which Node ends the
  process. Before the timeout this leaves the promise of \<^verbatim>\<open>waitUntil\<close> pending for good; at
  the timeout the promise has been rejected with the timeout string just before. The
  first truthy answer before the timeout resolves; a truthy answer at the timeout comes
  after the rejection and changes nothing.
\<close>

fun poll ::
  "string \<Rightarrow> (error + string option) list \<Rightarrow> error + string option
     \<Rightarrow> (error + string option) option \<times> error option" where
  "poll condition [] at_timeout =
     (Some (Inl (Rejection (''waitUntil timed out for '' @ condition))),
      (case at_timeout of Inl e \<Rightarrow> Some e | Inr r \<Rightarrow> None))"
| "poll condition (Inl e # later) at_timeout = (None, Some e)"
| "poll condition (Inr r # later) at_timeout =
     (if truthy r then (Some (Inr r), None) else poll condition later at_timeout)"

definition waitUntil ::
  "string \<Rightarrow> error + string option \<Rightarrow> (error + string option) list \<Rightarrow> error + string option
     \<Rightarrow> (error + string option) option \<times> error option" where
  "waitUntil condition first later at_timeout =
     (case first of
        Inl e \<Rightarrow> (Some (Inl e), None)
      | Inr r \<Rightarrow> if truthy r then (Some (Inr r), None) else poll condition later at_timeout)"

text \<open>
  What the listing page does during one attempt of \<^verbatim>\<open>loadNextPage\<close>: whether
  \<^verbatim>\<open>clickButton\<close> throws (no such button, or the page is gone), and the page as it is at
  the first evaluation of the condition, at the later ones before the timeout, and at the
  one made at the timeout.
\<close>

record load_attempt =
  click :: "error option"
  first_view :: page_state
  later_views :: "page_state list"
  timeout_view :: page_state

text \<open>
  How a call of the callback of \<^verbatim>\<open>loadNextPage\<close> ends when it does not throw: the row
  shows; or the process ends while the poll is pending; or the process has ended before
  the call began, during the sleep of the backoff, on an unhandled rejection that the poll
  before has left. A run in which the process ends has no continuation: the model hands
  the end of the process through \<^verbatim>\<open>exponentialBackoff\<close> like a value, which stops the loop
  at that call.
\<close>

datatype attempt_end = RowShown | EndsPolling | EndedSleeping

text \<open>The source text of the condition that \<^verbatim>\<open>loadNextPage\<close> passes to \<^verbatim>\<open>waitUntil\<close>.\<close>

definition condition_text :: string where
  "condition_text =
     ''() => this.jobCrawler.getTextWithId('' @ [CHR 0x60] @ ''eintrag-${i}-firma'' @ [CHR 0x60] @ '')''"

text \<open>
  The callback of \<^verbatim>\<open>loadNextPage\<close>. The state is the number of the attempt and the
  unhandled rejection left so far.
\<close>

definition click_and_poll ::
  "(nat \<Rightarrow> load_attempt) \<Rightarrow> nat \<Rightarrow> nat \<times> error option
     \<Rightarrow> (error + attempt_end) \<times> (nat \<times> error option)" where
  "click_and_poll env i st =
     (case st of
        (k, Some unhandled) \<Rightarrow> (Inr EndedSleeping, (k + 1, Some unhandled))
      | (k, None) \<Rightarrow>
          (case click (env k) of
             Some e \<Rightarrow> (Inl e, (k + 1, None))
           | None \<Rightarrow>
               (case waitUntil condition_text
                       (getTextWithId (first_view (env k)) (entry_id i ''firma''))
                       (map (\<lambda>v. getTextWithId v (entry_id i ''firma'')) (later_views (env k)))
                       (getTextWithId (timeout_view (env k)) (entry_id i ''firma'')) of
                  (None, unhandled) \<Rightarrow> (Inr EndsPolling, (k + 1, unhandled))
                | (Some (Inl e), unhandled) \<Rightarrow> (Inl e, (k + 1, unhandled))
                | (Some (Inr r), unhandled) \<Rightarrow> (Inr RowShown, (k + 1, unhandled)))))"

text \<open>
  \<^verbatim>\<open>loadNextPage(i)\<close>: the \<^verbatim>\<open>try\<close> returns \<open>true\<close>, the \<^verbatim>\<open>catch\<close> returns \<open>false\<close>. The result
  is what \<^verbatim>\<open>loadNextPage\<close> gives its caller (a value, or an error \<open>Inl\<close> like that of every
  other asynchronous function here; \<open>None\<close>: the process ends before it returns), the
  unhandled rejection left at that point, and the calls and sleeps of the backoff up to
  that point (without the call that never began). When the timeout of the fifth attempt
  leaves an unhandled rejection, \<^verbatim>\<open>loadNextPage\<close> has returned \<open>false\<close> before the process
  ends on it.
\<close>

definition loadNextPage ::
  "(nat \<Rightarrow> load_attempt) \<Rightarrow> nat \<Rightarrow> (error + bool) option \<times> error option \<times> timer_event list" where
  "loadNextPage env i =
     (case exponentialBackoff (click_and_poll env i) 5 5000 (0, None) of
        (Inr RowShown, (k, unhandled), evs) \<Rightarrow> (Some (Inr True), unhandled, evs)
      | (Inr EndsPolling, (k, unhandled), evs) \<Rightarrow> (None, unhandled, evs)
      | (Inr EndedSleeping, (k, unhandled), evs) \<Rightarrow> (None, unhandled, butlast evs)
      | (Inl e, (k, unhandled), evs) \<Rightarrow> (Some (Inr False), unhandled, evs))"

text \<open>
  Attempt \<open>k\<close> of \<^verbatim>\<open>loadNextPage(i)\<close>, started with no unhandled rejection left: it
  succeeds (the click does, and the row shows in time); it rejects (the click throws, the
  first evaluation throws, or the poll times out); the process ends while its poll is
  pending. \<open>unhandled_after\<close> is the unhandled rejection that the attempt leaves, and an
  attempt rejects quietly when it rejects and leaves none.
\<close>

definition attempt_succeeds :: "(nat \<Rightarrow> load_attempt) \<Rightarrow> nat \<Rightarrow> nat \<Rightarrow> bool" where
  "attempt_succeeds env i k = (fst (click_and_poll env i (k, None)) = Inr RowShown)"

definition attempt_rejects :: "(nat \<Rightarrow> load_attempt) \<Rightarrow> nat \<Rightarrow> nat \<Rightarrow> bool" where
  "attempt_rejects env i k = isl (fst (click_and_poll env i (k, None)))"

definition attempt_ends_process :: "(nat \<Rightarrow> load_attempt) \<Rightarrow> nat \<Rightarrow> nat \<Rightarrow> bool" where
  "attempt_ends_process env i k = (fst (click_and_poll env i (k, None)) = Inr EndsPolling)"

definition unhandled_after :: "(nat \<Rightarrow> load_attempt) \<Rightarrow> nat \<Rightarrow> nat \<Rightarrow> error option" where
  "unhandled_after env i k = snd (snd (click_and_poll env i (k, None)))"

definition rejects_quietly :: "(nat \<Rightarrow> load_attempt) \<Rightarrow> nat \<Rightarrow> nat \<Rightarrow> bool" where
  "rejects_quietly env i k = (attempt_rejects env i k \<and> unhandled_after env i k = None)"

text \<open>The state before attempt \<open>k\<close> of a run of \<^verbatim>\<open>loadNextPage(i)\<close>.\<close>

fun state_before :: "(nat \<Rightarrow> load_attempt) \<Rightarrow> nat \<Rightarrow> nat \<Rightarrow> nat \<times> error option" where
  "state_before env i 0 = (0, None)"
| "state_before env i (Suc k) = snd (click_and_poll env i (state_before env i k))"

subsection \<open>Listings\<close>

text \<open>The ids of the elements of row \<open>i\<close> that the listing extractor asks for.\<close>

definition row_ids :: "nat \<Rightarrow> string list" where
  "row_ids i =
     [entry_id i ''firma'', entry_id i ''beruf'', entry_id i ''arbeitsort'',
      entry_id i ''eintrittsdatum'', entry_id i ''veroeffentlichungsdatum'', item_id i]"

definition find_link :: "page_state \<Rightarrow> nat \<Rightarrow> element option" where
  "find_link ps i = find (\<lambda>e. el_tag e = ''a'' \<and> el_id e = item_id i) (dom ps)"

text \<open>The node that reading row \<open>i\<close> removes: the second ancestor of the row's link.\<close>

definition outer_node :: "page_state \<Rightarrow> nat \<Rightarrow> nat" where
  "outer_node ps i = (case find_link ps i of Some l \<Rightarrow> ancestors l ! 1 | None \<Rightarrow> 0)"

text \<open>
  The page holds row \<open>i\<close>: its company name and its location are there, its link is there
  with two ancestors above it, and its publication date, when there is one, is a date.
\<close>

definition row_complete :: "(string \<Rightarrow> error + string) \<Rightarrow> page_state \<Rightarrow> nat \<Rightarrow> bool" where
  "row_complete toISOString ps i =
     (find (\<lambda>e. el_id e = entry_id i ''firma'') (dom ps) \<noteq> None
      \<and> find (\<lambda>e. el_id e = entry_id i ''arbeitsort'') (dom ps) \<noteq> None
      \<and> (case find_link ps i of None \<Rightarrow> False | Some l \<Rightarrow> 2 \<le> length (ancestors l))
      \<and> (case cleanPostDate
                 (map_option title
                    (find (\<lambda>e. el_id e = entry_id i ''veroeffentlichungsdatum'') (dom ps))) of
            None \<Rightarrow> True
          | Some t \<Rightarrow> if t = [] then True else \<not> isl (toISOString t)))"

text \<open>
  The outer container of row \<open>i\<close> holds nothing of another row below \<open>n\<close>: no element in it
  has an id of the row \<open>m\<close>, for \<open>m < n\<close> other than \<open>i\<close>.
\<close>

definition row_isolated :: "page_state \<Rightarrow> nat \<Rightarrow> nat \<Rightarrow> bool" where
  "row_isolated ps n i =
     list_all (\<lambda>e. if lies_under (outer_node ps i) e
                    then list_all (\<lambda>m. if m = i then True else el_id e \<notin> set (row_ids m)) [0..<n]
                    else True) (dom ps)"

text \<open>A live listing page that holds the rows \<open>i, \<dots>, n - 1\<close>, each in a container of its own,
  and no row \<open>n\<close>.\<close>

definition holds_rows :: "(string \<Rightarrow> error + string) \<Rightarrow> nat \<Rightarrow> nat \<Rightarrow> page_state \<Rightarrow> bool" where
  "holds_rows toISOString i n ps =
     (alive ps
      \<and> list_all (\<lambda>j. row_complete toISOString ps j \<and> row_isolated ps n j) [i..<n]
      \<and> find (\<lambda>e. el_id e = entry_id n ''firma'') (dom ps) = None)"

text \<open>The reads of \<open>n\<close> rows from index \<open>i\<close> on, one after the other, as the crawl loop makes
  them between two loads.\<close>

fun read_rows ::
  "(string \<Rightarrow> error + string) \<Rightarrow> nat \<Rightarrow> nat \<Rightarrow> page_state
     \<Rightarrow> (error + posting option) list \<times> page_state" where
  "read_rows toISOString 0 i ps = ([], ps)"
| "read_rows toISOString (Suc n) i ps =
     (case readArbeitsagenturPosting toISOString i ps of
        (r, ps') \<Rightarrow>
          (case read_rows toISOString n (i + 1) ps' of (rs, ps'') \<Rightarrow> (r # rs, ps'')))"

definition is_posting :: "error + posting option \<Rightarrow> bool" where
  "is_posting r = (case r of Inr (Some p) \<Rightarrow> True | _ \<Rightarrow> False)"

text \<open>Concrete inputs: a listing of rows, each a list item that holds a wrapper, the link
  and the fields of the row; and pages for \<^verbatim>\<open>loadNextPage\<close>.\<close>

definition plain :: "string \<Rightarrow> string \<Rightarrow> string \<Rightarrow> nat \<Rightarrow> nat list \<Rightarrow> element" where
  "plain tag ident text n anc =
     \<lparr>el_id = ident, el_tag = tag, innerText = text, title = [], href = [], node = n,
      ancestors = anc\<rparr>"

definition row_elements :: "nat \<Rightarrow> element list" where
  "row_elements i =
     [plain ''li'' [] [] (10 * i + 1) [0],
      plain ''div'' [] [] (10 * i + 2) [10 * i + 1, 0],
      (plain ''a'' (item_id i) [] (10 * i + 3) [10 * i + 2, 10 * i + 1, 0])
         \<lparr>href := ''https://www.arbeitsagentur.de/jobsuche/jobdetail/10001-'' @ show_nat i\<rparr>,
      plain ''span'' (entry_id i ''firma'') (''Arbeitgeber:'' @ [CHR 0x0A] @ ''Muster GmbH'')
         (10 * i + 4) [10 * i + 3, 10 * i + 2, 10 * i + 1, 0],
      plain ''span'' (entry_id i ''arbeitsort'') (''Arbeitsort:'' @ [CHR 0x0A] @ ''Berlin'')
         (10 * i + 5) [10 * i + 3, 10 * i + 2, 10 * i + 1, 0]]"

definition listing :: "nat \<Rightarrow> page_state" where
  "listing n = \<lparr>alive = True, dom = concat (map row_elements [0..<n])\<rparr>"

definition no_dates :: "string \<Rightarrow> error + string" where
  "no_dates s = Inl (Error ''Invalid time value'')"

text \<open>
  Pages for \<^verbatim>\<open>loadNextPage(2)\<close>: row 2 never shows; it shows during the third attempt; the
  page dies while the second attempt polls; the page dies at the timeout of attempt \<open>n\<close>.
\<close>

definition dead_page :: page_state where
  "dead_page = \<lparr>alive = False, dom = []\<rparr>"

definition never_loads :: "nat \<Rightarrow> load_attempt" where
  "never_loads k =
     \<lparr>click = None, first_view = listing 2, later_views = [listing 2, listing 2],
      timeout_view = listing 2\<rparr>"

definition loads_third_time :: "nat \<Rightarrow> load_attempt" where
  "loads_third_time k =
     (if k < 2 then never_loads k
      else \<lparr>click = None, first_view = listing 2, later_views = [listing 2, listing 3],
            timeout_view = listing 3\<rparr>)"

definition dies_polling :: "nat \<Rightarrow> load_attempt" where
  "dies_polling k =
     (if k < 1 then never_loads k
      else \<lparr>click = None, first_view = listing 2, later_views = [listing 2, dead_page],
            timeout_view = dead_page\<rparr>)"

definition dies_at_timeout :: "nat \<Rightarrow> nat \<Rightarrow> load_attempt" where
  "dies_at_timeout n k =
     (if k < n then never_loads k
      else \<lparr>click = None, first_view = listing 2, later_views = [listing 2, listing 2],
            timeout_view = dead_page\<rparr>)"

section \<open>\<^verbatim>\<open>readPostings\<close>: the crawl loop\<close>

text \<open>
  The promise \<^verbatim>\<open>addCompanyData(postings).then(postings => saveCallback(postings))\<close> held in
  \<^verbatim>\<open>finalizePromise\<close>: the batch is still being enriched and the sink has not been called;
  or the sink has been called and its promise resolves (\<open>None\<close>) or rejects; or the loop
  has awaited the promise and seen it resolved.
\<close>

datatype promise = Enriching "posting list" | Delivered "error option" | Settled

text \<open>What can be observed of a run, in order.\<close>

datatype crawl_event =
    Cleanup
  | HandOffStarted "posting list"
  | SinkCalled "posting list"
  | HandOffAwaited

text \<open>
  What the surroundings of the loop answer: the two navigations before the loop, the
  batch that \<^verbatim>\<open>addCompanyData\<close> resolves with (it never rejects), and whether the sink
  \<^verbatim>\<open>saveCallback\<close> accepts a batch or rejects.
\<close>

record crawl_env =
  job_goto :: "error option"
  pool_goto :: "error option"
  enrich :: "posting list \<Rightarrow> posting list"
  sink :: "posting list \<Rightarrow> error option"

text \<open>
  What happens during one iteration of \<^verbatim>\<open>while (true)\<close>: the result of
  \<^verbatim>\<open>readArbeitsagenturPosting(i)\<close> and of \<^verbatim>\<open>loadNextPage(i)\<close>, and whether the promise in
  flight gets as far as calling the sink while the loop is suspended in the cleanup and
  the read, and while it is suspended in \<^verbatim>\<open>loadNextPage\<close>.
\<close>

datatype read_outcome = RowFound posting | RowAbsent | ReadThrows error

record iteration =
  settles_before_read :: bool
  read_result :: read_outcome
  settles_during_load :: bool
  next_page :: bool

record loop_state =
  finalizePromise :: "promise option"
  count :: nat
  postings :: "posting list"
  lastCleanup :: nat

text \<open>The promise in flight moves on while the loop is suspended, when the iteration says so.\<close>

definition progress :: "crawl_env \<Rightarrow> bool \<Rightarrow> promise option \<Rightarrow> promise option \<times> crawl_event list" where
  "progress env settles fp =
     (case fp of
        Some (Enriching b) \<Rightarrow>
          if settles then (Some (Delivered (sink env (enrich env b))), [SinkCalled (enrich env b)])
          else (fp, [])
      | _ \<Rightarrow> (fp, []))"

text \<open>
  \<^verbatim>\<open>if (finalizePromise) await finalizePromise\<close>: the loop goes on only when the promise
  is settled, so a batch still being enriched reaches the sink now; a rejection is thrown.
\<close>

definition await_finalize ::
  "crawl_env \<Rightarrow> promise option \<Rightarrow> (error + promise option) \<times> crawl_event list" where
  "await_finalize env fp =
     (case fp of
        None \<Rightarrow> (Inr None, [])
      | Some (Enriching b) \<Rightarrow>
          (case sink env (enrich env b) of
             None \<Rightarrow> (Inr (Some Settled), [SinkCalled (enrich env b), HandOffAwaited])
           | Some e \<Rightarrow> (Inl e, [SinkCalled (enrich env b)]))
      | Some (Delivered None) \<Rightarrow> (Inr (Some Settled), [HandOffAwaited])
      | Some (Delivered (Some e)) \<Rightarrow> (Inl e, [])
      | Some Settled \<Rightarrow> (Inr (Some Settled), [HandOffAwaited]))"

definition cleanup_step :: "loop_state \<Rightarrow> loop_state \<times> crawl_event list" where
  "cleanup_step st =
     (if count st - lastCleanup st \<ge> 50 then (st\<lparr>lastCleanup := count st\<rparr>, [Cleanup])
      else (st, []))"

text \<open>
  Lines 64-69: a non-empty batch is tagged with the search url and handed to
  \<^verbatim>\<open>addCompanyData\<close> and then to the sink, in a new promise; \<open>postings\<close> becomes a new empty
  array.
\<close>

definition close_batch ::
  "string \<Rightarrow> promise option \<Rightarrow> posting list \<Rightarrow> promise option \<times> posting list \<times> crawl_event list" where
  "close_batch url fp batch =
     (if batch \<noteq> []
      then (Some (Enriching (map (\<lambda>p. p\<lparr>from_search_url := Some url\<rparr>) batch)), [],
            [HandOffStarted (map (\<lambda>p. p\<lparr>from_search_url := Some url\<rparr>) batch)])
      else (fp, batch, []))"

datatype step_result = Stop "error + nat" | Continue loop_state

text \<open>The branch \<^verbatim>\<open>if (!found)\<close> of the loop body, after the read.\<close>

definition row_absent_step ::
  "crawl_env \<Rightarrow> string \<Rightarrow> iteration \<Rightarrow> loop_state \<Rightarrow> step_result \<times> crawl_event list" where
  "row_absent_step env url it st =
     (case await_finalize env (finalizePromise st) of
        (Inl e, ev1) \<Rightarrow> (Stop (Inl e), ev1)
      | (Inr fp1, ev1) \<Rightarrow>
          (case close_batch url fp1 (postings st) of
             (fp2, postings2, ev2) \<Rightarrow>
               (case progress env (settles_during_load it) fp2 of
                  (fp3, ev3) \<Rightarrow>
                    if \<not> next_page it then
                      (case await_finalize env fp3 of
                         (Inl e, ev4) \<Rightarrow> (Stop (Inl e), ev1 @ ev2 @ ev3 @ ev4)
                       | (Inr fp4, ev4) \<Rightarrow> (Stop (Inr (count st)), ev1 @ ev2 @ ev3 @ ev4))
                    else (Continue (st\<lparr>finalizePromise := fp3, postings := postings2\<rparr>),
                          ev1 @ ev2 @ ev3))))"

text \<open>One iteration of the loop body.\<close>

definition iteration_step ::
  "crawl_env \<Rightarrow> string \<Rightarrow> iteration \<Rightarrow> loop_state \<Rightarrow> step_result \<times> crawl_event list" where
  "iteration_step env url it st =
     (case cleanup_step st of
        (st1, ev1) \<Rightarrow>
          (case progress env (settles_before_read it) (finalizePromise st1) of
             (fp2, ev2) \<Rightarrow>
               (case read_result it of
                  ReadThrows e \<Rightarrow> (Stop (Inl e), ev1 @ ev2)
                | RowFound found \<Rightarrow>
                    (Continue (st1\<lparr>finalizePromise := fp2, postings := postings st1 @ [found],
                                   count := count st1 + 1\<rparr>), ev1 @ ev2)
                | RowAbsent \<Rightarrow>
                    (case row_absent_step env url it (st1\<lparr>finalizePromise := fp2\<rparr>) of
                       (r, ev3) \<Rightarrow> (r, ev1 @ ev2 @ ev3)))))"

text \<open>
  The loop, run on the iterations that the script describes. \<open>None\<close>: the script ends and
  the loop is still running.
\<close>

fun readPostings_loop ::
  "crawl_env \<Rightarrow> string \<Rightarrow> iteration list \<Rightarrow> loop_state \<Rightarrow> (error + nat) option \<times> crawl_event list" where
  "readPostings_loop env url [] st = (None, [])"
| "readPostings_loop env url (it # script) st =
     (case iteration_step env url it st of
        (Stop r, evs) \<Rightarrow> (Some r, evs)
      | (Continue st', evs) \<Rightarrow>
          (case readPostings_loop env url script st' of (r, evs') \<Rightarrow> (r, evs @ evs')))"

definition readPostings ::
  "crawl_env \<Rightarrow> string \<Rightarrow> iteration list \<Rightarrow> (error + nat) option \<times> crawl_event list" where
  "readPostings env url script =
     (case job_goto env of
        Some e \<Rightarrow> (Some (Inl e), [])
      | None \<Rightarrow>
          (case pool_goto env of
             Some e \<Rightarrow> (Some (Inl e), [])
           | None \<Rightarrow>
               readPostings_loop env url script
                 \<lparr>finalizePromise = None, count = 0, postings = [], lastCleanup = 0\<rparr>))"

subsection \<open>The pipeline rule\<close>

text \<open>
  The state of the one-deep pipeline, as an observer of the events keeps it: no hand-off
  is open; a hand-off of a batch has been started and the sink has not been called for
  it; or the sink has been called and the loop has not awaited the hand-off yet.
\<close>

datatype pipeline = Idle | InFlight "posting list" | Accepted

text \<open>
  One event under the rule, \<open>None\<close> when the event breaks it: a hand-off is started only
  when none is open; the sink is called only for the batch in flight, with that batch
  enriched; a hand-off is seen awaited only after the sink was called for it.
\<close>

fun pipeline_step :: "(posting list \<Rightarrow> posting list) \<Rightarrow> pipeline \<Rightarrow> crawl_event \<Rightarrow> pipeline option" where
  "pipeline_step en s Cleanup = Some s"
| "pipeline_step en Idle (HandOffStarted b) = Some (InFlight b)"
| "pipeline_step en s (HandOffStarted b) = None"
| "pipeline_step en (InFlight b) (SinkCalled b') = (if b' = en b then Some Accepted else None)"
| "pipeline_step en s (SinkCalled b') = None"
| "pipeline_step en (InFlight b) HandOffAwaited = None"
| "pipeline_step en s HandOffAwaited = Some Idle"

fun pipeline_run :: "(posting list \<Rightarrow> posting list) \<Rightarrow> pipeline \<Rightarrow> crawl_event list \<Rightarrow> pipeline option" where
  "pipeline_run en s [] = Some s"
| "pipeline_run en s (ev # evs) =
     (case pipeline_step en s ev of None \<Rightarrow> None | Some s' \<Rightarrow> pipeline_run en s' evs)"

text \<open>The batches whose hand-off was started, and the batches the sink was called with.\<close>

fun started :: "crawl_event list \<Rightarrow> posting list list" where
  "started [] = []"
| "started (HandOffStarted b # evs) = b # started evs"
| "started (ev # evs) = started evs"

fun sunk :: "crawl_event list \<Rightarrow> posting list list" where
  "sunk [] = []"
| "sunk (SinkCalled b # evs) = b # sunk evs"
| "sunk (ev # evs) = sunk evs"

text \<open>The pipeline state that goes with the promise held by the loop.\<close>

definition pipeline_of :: "promise option \<Rightarrow> pipeline" where
  "pipeline_of fp =
     (case fp of
        None \<Rightarrow> Idle
      | Some (Enriching b) \<Rightarrow> InFlight b
      | Some (Delivered r) \<Rightarrow> Accepted
      | Some Settled \<Rightarrow> Idle)"

definition in_flight :: "pipeline \<Rightarrow> posting list list" where
  "in_flight s = (case s of InFlight b \<Rightarrow> [b] | _ \<Rightarrow> [])"

text \<open>The script lets the loop end: some iteration finds no row and no next page.\<close>

definition ends :: "iteration list \<Rightarrow> bool" where
  "ends script = list_ex (\<lambda>it. read_result it = RowAbsent \<and> \<not> next_page it) script"

text \<open>Concrete inputs: a crawl of two pages, with a slow and with a fast sink.\<close>

definition plain_env :: crawl_env where
  "plain_env = \<lparr>job_goto = None, pool_goto = None, enrich = (\<lambda>b. b), sink = (\<lambda>b. None)\<rparr>"

definition row :: "nat \<Rightarrow> iteration" where
  "row i = \<lparr>settles_before_read = False, read_result = RowFound (listed i),
            settles_during_load = False, next_page = False\<rparr>"

definition page_end :: "bool \<Rightarrow> bool \<Rightarrow> iteration" where
  "page_end settles again = \<lparr>settles_before_read = False, read_result = RowAbsent,
            settles_during_load = settles, next_page = again\<rparr>"

definition two_pages :: "iteration list" where
  "two_pages = [row 0, row 1, page_end False True, row 2, page_end True False]"

text \<open>What the pipeline rule asks of the events of one step, from pipeline state \<open>s\<close>.\<close>

definition step_ok ::
  "(posting list \<Rightarrow> posting list) \<Rightarrow> pipeline \<Rightarrow> step_result \<Rightarrow> crawl_event list \<Rightarrow> bool" where
  "step_ok en s res evs =
     (case res of
        Continue st' \<Rightarrow> pipeline_run en s evs = Some (pipeline_of (finalizePromise st'))
      | Stop (Inr n) \<Rightarrow> pipeline_run en s evs = Some Idle
      | Stop (Inl e) \<Rightarrow> pipeline_run en s evs \<noteq> None)"

chapter \<open>Verification\<close>

section \<open>exponentialBackoff\<close>

lemma fn_calls_simps [simp]:
  "fn_calls [] = 0" "fn_calls (FnCall # evs) = Suc (fn_calls evs)" "fn_calls (Delay d # evs) = fn_calls evs"
  by (simp_all add: fn_calls_def)

lemma backoff_loop_calls:
  "int (fn_calls (snd (snd (exponentialBackoff_loop fn n d a err s)))) \<le> max (n - a) 0"
proof (induction fn n d a err s rule: exponentialBackoff_loop.induct)
  case (1 fn maxRetries delay attempt error s)
  note eq = exponentialBackoff_loop.simps [of fn maxRetries delay attempt error s]
  show ?case
  proof (cases "attempt < maxRetries")
    case False
    then show ?thesis by (simp add: eq)
  next
    case True
    obtain r s' where f: "fn s = (r, s')" by (cases "fn s")
    show ?thesis
    proof (cases r)
      case (Inr v)
      with True f show ?thesis by (simp add: eq)
    next
      case (Inl e)
      show ?thesis
      proof (cases "attempt = maxRetries - 1")
        case last: True
        have "exponentialBackoff_loop fn maxRetries delay attempt error s = (Inl e, s', [FnCall])"
          unfolding eq using True f Inl last by simp
        with True show ?thesis by simp
      next
        case False
        from "1.IH" [OF True f [symmetric] Inl False]
        have ih: "int (fn_calls (snd (snd (exponentialBackoff_loop fn maxRetries delay (attempt + 1) e s'))))
                   \<le> max (maxRetries - (attempt + 1)) 0"
          by simp
        obtain r2 s2 evs where rec:
          "exponentialBackoff_loop fn maxRetries delay (attempt + 1) e s' = (r2, s2, evs)"
          by (cases "exponentialBackoff_loop fn maxRetries delay (attempt + 1) e s'")
        have "exponentialBackoff_loop fn maxRetries delay attempt error s
                = (r2, s2, FnCall # Delay (delay * 2 ^ nat attempt) # evs)"
          unfolding eq using True f Inl False rec by simp
        with ih rec True show ?thesis by simp
      qed
    qed
  qed
qed

lemma backoff_nonpositive:
  "n \<le> 0 \<Longrightarrow> exponentialBackoff fn n d s = (Inl Undefined, s, [])"
  by (simp add: exponentialBackoff_def exponentialBackoff_loop.simps)

text \<open>
  C10. Whatever \<open>fn\<close> and the base delay are, \<^verbatim>\<open>exponentialBackoff(fn, n, d)\<close> invokes
  \<open>fn\<close> at most \<open>max n 0\<close> times; for \<open>n \<le> 0\<close> it throws the never-assigned \<open>error\<close>
  (\<^verbatim>\<open>undefined\<close>) without invoking \<open>fn\<close>, sleeping or touching the state.
\<close>

theorem exponentialBackoff_call_bound:
  "int (fn_calls (snd (snd (exponentialBackoff fn n d s)))) \<le> max n 0
   \<and> (n \<le> 0 \<longrightarrow> exponentialBackoff fn n d s = (Inl Undefined, s, []))"
  using backoff_loop_calls [of fn n d 0 Undefined s] backoff_nonpositive [of n fn d s]
  by (simp add: exponentialBackoff_def)

theorem exponentialBackoff_call_bound_witness:
  "int (fn_calls (snd (snd (exponentialBackoff
      (\<lambda>k::nat. (Inl (Error ''x'') :: error + unit, k + 1)) (- 1) 500 0)))) \<le> max (- 1) 0
   \<and> (- 1 :: int) \<le> 0
   \<and> exponentialBackoff (\<lambda>k::nat. (Inl (Error ''x'') :: error + unit, k + 1)) (- 1) 500 0
       = (Inl Undefined, 0, [])"
  using exponentialBackoff_call_bound
    [of "\<lambda>k::nat. (Inl (Error ''x'') :: error + unit, k + 1)" "- 1" 500 0]
  by simp

section \<open>Session navigation\<close>

lemma goto_loop_done: "m < a \<Longrightarrow> goto_loop env url spa m a c = (Inr (), c, [])"
  by (subst goto_loop.simps) simp

lemma goto_loop_success:
  "a \<le> m \<Longrightarrow> goto_attempt (env (nat a)) url spa = (Inr u, evs)
     \<Longrightarrow> goto_loop env url spa m a c = (Inr (), c, evs)"
  by (subst goto_loop.simps) simp

lemma goto_loop_last:
  "goto_attempt (env (nat m)) url spa = (Inl msg, evs)
     \<Longrightarrow> goto_loop env url spa m m c = (Inl (Error (terminal_message url m msg)), c, evs)"
  by (subst goto_loop.simps) simp

lemma goto_loop_retry:
  "a < m \<Longrightarrow> goto_attempt (env (nat a)) url spa = (Inl msg, evs)
     \<Longrightarrow> goto_recover (env (nat a)) msg c = (c', revs)
     \<Longrightarrow> goto_loop env url spa m (a + 1) c' = (r, c'', evs')
     \<Longrightarrow> goto_loop env url spa m a c = (r, c'', evs @ revs @ Sleep (1000 * 2 ^ nat a) # evs')"
  by (subst goto_loop.simps) (auto simp: goto_recover_def split: prod.splits sum.splits)

lemma goto_loop_cases:
  assumes "a \<le> m"
  obtains (success) u evs where "goto_attempt (env (nat a)) url spa = (Inr u, evs)"
      "goto_loop env url spa m a c = (Inr (), c, evs)"
    | (last) msg evs where "a = m" "goto_attempt (env (nat a)) url spa = (Inl msg, evs)"
      "goto_loop env url spa m a c = (Inl (Error (terminal_message url m msg)), c, evs)"
    | (retry) msg evs c' revs r c'' evs' where "a < m"
      "goto_attempt (env (nat a)) url spa = (Inl msg, evs)"
      "goto_recover (env (nat a)) msg c = (c', revs)"
      "goto_loop env url spa m (a + 1) c' = (r, c'', evs')"
      "goto_loop env url spa m a c = (r, c'', evs @ revs @ Sleep (1000 * 2 ^ nat a) # evs')"
proof -
  obtain res evs where at: "goto_attempt (env (nat a)) url spa = (res, evs)"
    by (cases "goto_attempt (env (nat a)) url spa")
  show thesis
  proof (cases res)
    case (Inr u)
    with at assms show thesis using success goto_loop_success by blast
  next
    case (Inl msg)
    show thesis
    proof (cases "a = m")
      case True
      with at Inl show thesis using last goto_loop_last by blast
    next
      case False
      with assms have lt: "a < m" by simp
      obtain c' revs where rc: "goto_recover (env (nat a)) msg c = (c', revs)"
        by (cases "goto_recover (env (nat a)) msg c")
      obtain r c'' evs' where rec: "goto_loop env url spa m (a + 1) c' = (r, c'', evs')"
        by (cases "goto_loop env url spa m (a + 1) c'")
      from goto_loop_retry [OF lt _ rc rec] at Inl show thesis using retry lt rc rec by blast
    qed
  qed
qed

lemma goto_loop_raises_iff:
  "0 \<le> a \<Longrightarrow> a \<le> m \<Longrightarrow>
   isl (fst (goto_loop env url spa m a c))
     = list_all (\<lambda>k. attempt_fails (env k) url spa) [nat a..<nat (m + 1)]"
proof (induction "nat (m - a)" arbitrary: a c)
  case 0
  then have am: "a = m" by simp
  have up: "[nat m..<nat (m + 1)] = [nat m]"
    using 0 am by (simp add: nat_add_distrib upt_rec)
  from \<open>a \<le> m\<close> show ?case
  proof (cases rule: goto_loop_cases [where env = env and url = url and spa = spa and c = c])
    case (success u evs) then show ?thesis using am up by (simp add: attempt_fails_def)
  next
    case (last msg evs) then show ?thesis using am up by (simp add: attempt_fails_def)
  next
    case retry then show ?thesis using am by simp
  qed
next
  case (Suc n)
  then have lt: "a < m" by simp
  have up: "[nat a..<nat (m + 1)] = nat a # [nat (a + 1)..<nat (m + 1)]"
    using Suc.prems lt by (simp add: nat_add_distrib upt_rec)
  from \<open>a \<le> m\<close> show ?case
  proof (cases rule: goto_loop_cases [where env = env and url = url and spa = spa and c = c])
    case (success u evs) then show ?thesis using up by (simp add: attempt_fails_def)
  next
    case (last msg evs) then show ?thesis using lt by simp
  next
    case (retry msg evs c' revs r c'' evs')
    have "isl (fst (goto_loop env url spa m (a + 1) c'))
            = list_all (\<lambda>k. attempt_fails (env k) url spa) [nat (a + 1)..<nat (m + 1)]"
      using Suc.hyps(1) [of "a + 1" c'] Suc.hyps(2) Suc.prems lt by simp
    with retry show ?thesis using up by (simp add: attempt_fails_def)
  qed
qed

lemma last_probe_append:
  "last_probe (xs @ ys) = (case last_probe ys of Some b \<Rightarrow> Some b | None \<Rightarrow> last_probe xs)"
  by (induction xs) (auto split: option.splits page_event.splits)

lemma goto_attempt_success_events:
  "goto_attempt obs url spa = (Inr u, evs) \<Longrightarrow> evs = [Probe True, Navigate url spa]"
  by (auto simp: goto_attempt_def split: if_splits nav_outcome.splits)

lemma goto_attempt_failure_events:
  "goto_attempt obs url spa = (Inl msg, evs) \<Longrightarrow>
     (evs = [Probe False] \<and> msg = ''Page is unhealthy, needs recreation'')
     \<or> evs = [Probe True, Navigate url spa]"
  by (auto simp: goto_attempt_def split: if_splits nav_outcome.splits)

lemma goto_loop_error:
  "0 \<le> a \<Longrightarrow> a \<le> m \<Longrightarrow> isl (fst (goto_loop env url spa m a c)) \<Longrightarrow>
   fst (goto_loop env url spa m a c)
     = Inl (Error (terminal_message url m (failure_message (env (nat m)) url spa)))"
proof (induction "nat (m - a)" arbitrary: a c)
  case 0
  then have am: "a = m" by simp
  from \<open>a \<le> m\<close> show ?case
  proof (cases rule: goto_loop_cases [where env = env and url = url and spa = spa and c = c])
    case (success u evs) then show ?thesis using "0.prems" by simp
  next
    case (last msg evs) then show ?thesis using am by (simp add: failure_message_def)
  next
    case retry then show ?thesis using am by simp
  qed
next
  case (Suc n)
  then have lt: "a < m" by simp
  from \<open>a \<le> m\<close> show ?case
  proof (cases rule: goto_loop_cases [where env = env and url = url and spa = spa and c = c])
    case (success u evs) then show ?thesis using Suc.prems by simp
  next
    case (last msg evs) then show ?thesis using lt by simp
  next
    case (retry msg evs c' revs r c'' evs')
    have "isl (fst (goto_loop env url spa m (a + 1) c'))"
      using retry Suc.prems by simp
    then have "fst (goto_loop env url spa m (a + 1) c')
            = Inl (Error (terminal_message url m (failure_message (env (nat m)) url spa)))"
      using Suc.hyps(1) [of "a + 1" c'] Suc.hyps(2) Suc.prems lt by simp
    with retry show ?thesis by simp
  qed
qed

lemma goto_loop_healthy:
  "0 \<le> a \<Longrightarrow> a \<le> m \<Longrightarrow> \<not> isl (fst (goto_loop env url spa m a c)) \<Longrightarrow>
   last_probe (snd (snd (goto_loop env url spa m a c))) = Some True"
proof (induction "nat (m - a)" arbitrary: a c)
  case 0
  then have am: "a = m" by simp
  from \<open>a \<le> m\<close> show ?case
  proof (cases rule: goto_loop_cases [where env = env and url = url and spa = spa and c = c])
    case (success u evs)
    then show ?thesis using goto_attempt_success_events [OF success(1)] by simp
  next
    case (last msg evs) then show ?thesis using "0.prems" by simp
  next
    case retry then show ?thesis using am by simp
  qed
next
  case (Suc n)
  then have lt: "a < m" by simp
  from \<open>a \<le> m\<close> show ?case
  proof (cases rule: goto_loop_cases [where env = env and url = url and spa = spa and c = c])
    case (success u evs)
    then show ?thesis using goto_attempt_success_events [OF success(1)] by simp
  next
    case (last msg evs) then show ?thesis using lt by simp
  next
    case (retry msg evs c' revs r c'' evs')
    have "\<not> isl (fst (goto_loop env url spa m (a + 1) c'))"
      using retry Suc.prems by simp
    then have "last_probe (snd (snd (goto_loop env url spa m (a + 1) c'))) = Some True"
      using Suc.hyps(1) [of "a + 1" c'] Suc.hyps(2) Suc.prems lt by simp
    with retry show ?thesis by (simp add: last_probe_append)
  qed
qed

lemma unhealthy_needs_recreation:
  "needs_recreation ''Page is unhealthy, needs recreation'' obs"
  by (simp add: needs_recreation_def)

lemma goto_recover_shape:
  assumes "goto_recover obs msg c = (c', revs)"
  shows "c' = c\<lparr>page := page c'\<rparr>"
    and "needs_recreation msg obs \<Longrightarrow>
           \<exists>h. revs = [NewPage h] \<or> revs = [ClosePage (page c), NewPage h]"
    and "\<not> needs_recreation msg obs \<Longrightarrow> revs = []"
  using assms
  by (auto simp: goto_recover_def recreatePage_def Let_def split: if_splits sum.splits)

lemma goto_loop_events_head:
  "snd (snd (goto_loop env url spa m a c)) = []
   \<or> (\<exists>b es. snd (snd (goto_loop env url spa m a c)) = Probe b # es)"
proof (cases "a \<le> m")
  case False
  then show ?thesis by (simp add: goto_loop_done)
next
  case True
  then show ?thesis
  proof (cases rule: goto_loop_cases [where env = env and url = url and spa = spa and c = c])
    case (success u evs)
    then show ?thesis using goto_attempt_success_events [OF success(1)] by auto
  next
    case (last msg evs)
    then show ?thesis using goto_attempt_failure_events [OF last(2)] by auto
  next
    case (retry msg evs c' revs r c'' evs')
    then show ?thesis using goto_attempt_failure_events [OF retry(2)] by auto
  qed
qed

lemma pbn_segment:
  assumes "probe_before_navigate rest"
    and "evs = [Probe False] \<or> evs = [Probe True, Navigate url spa]"
    and "revs = [] \<or> (\<exists>h. revs = [NewPage h] \<or> revs = [ClosePage p, NewPage h])"
  shows "probe_before_navigate (evs @ revs @ Sleep d # rest)"
  using assms by auto

lemma ur_segment:
  assumes "unhealthy_recreates None rest"
    and "rest = [] \<or> (\<exists>b es. rest = Probe b # es)"
    and "(evs = [Probe False] \<and> (\<exists>h. revs = [NewPage h] \<or> revs = [ClosePage p, NewPage h]))
         \<or> (evs = [Probe True, Navigate url spa]
             \<and> (revs = [] \<or> (\<exists>h. revs = [NewPage h] \<or> revs = [ClosePage p, NewPage h])))"
  shows "unhealthy_recreates None (evs @ revs @ Sleep d # rest)"
  using assms by auto

lemma goto_loop_discipline:
  "probe_before_navigate (snd (snd (goto_loop env url spa m a c)))
   \<and> unhealthy_recreates None (snd (snd (goto_loop env url spa m a c)))
   \<and> fst (snd (goto_loop env url spa m a c)) = c\<lparr>page := page (fst (snd (goto_loop env url spa m a c)))\<rparr>"
proof (induction "nat (m + 1 - a)" arbitrary: a c)
  case 0
  then have "m < a" by simp
  then show ?case by (simp add: goto_loop_done)
next
  case (Suc n)
  then have le: "a \<le> m" by simp
  then show ?case
  proof (cases rule: goto_loop_cases [where env = env and url = url and spa = spa and c = c])
    case (success u evs)
    then show ?thesis using goto_attempt_success_events [OF success(1)] by simp
  next
    case (last msg evs)
    then show ?thesis using goto_attempt_failure_events [OF last(2)] by auto
  next
    case (retry msg evs c' revs r c'' evs')
    have ih: "probe_before_navigate evs'" "unhealthy_recreates None evs'"
      "c'' = c'\<lparr>page := page c''\<rparr>"
      using Suc.hyps(1) [of "a + 1" c'] Suc.hyps(2) retry(4) by simp_all
    have hd: "evs' = [] \<or> (\<exists>b es. evs' = Probe b # es)"
      using goto_loop_events_head [of env url spa m "a + 1" c'] retry(4) by simp
    note sh = goto_recover_shape [OF retry(3)]
    have rv: "revs = [] \<or> (\<exists>h. revs = [NewPage h] \<or> revs = [ClosePage (page c), NewPage h])"
      using sh(2) sh(3) by blast
    have ev: "evs = [Probe False] \<and> msg = ''Page is unhealthy, needs recreation''
              \<or> evs = [Probe True, Navigate url spa]"
      using goto_attempt_failure_events [OF retry(2)] .
    have p1: "probe_before_navigate (evs @ revs @ Sleep (1000 * 2 ^ nat a) # evs')"
      using pbn_segment [OF ih(1) _ rv] ev by blast
    have "(evs = [Probe False] \<and> (\<exists>h. revs = [NewPage h] \<or> revs = [ClosePage (page c), NewPage h]))
         \<or> (evs = [Probe True, Navigate url spa]
             \<and> (revs = [] \<or> (\<exists>h. revs = [NewPage h] \<or> revs = [ClosePage (page c), NewPage h])))"
      using ev rv sh(2) unhealthy_needs_recreation by blast
    from ur_segment [OF ih(2) hd this]
    have p2: "unhealthy_recreates None (evs @ revs @ Sleep (1000 * 2 ^ nat a) # evs')" .
    have p3: "c'' = c\<lparr>page := page c''\<rparr>"
      using ih(3) sh(1) by (metis crawler.surjective crawler.update_convs(2))
    from p1 p2 p3 retry(5) show ?thesis by simp
  qed
qed

text \<open>
  C2, as the code has it. With \<open>maxRetries = -1\<close> the loop body never runs: \<^verbatim>\<open>goto\<close>
  returns normally without a single attempt, also against an engine on which every
  attempt fails.
\<close>

theorem goto_negative_retries_counterexample:
  "all_attempts_fail env_always_timeout (normalize_url ''http://x.de'') False (- 1)
   \<and> all_attempts_fail env_always_timeout (normalize_url ''http://x.de'') False 0
   \<and> goto env_always_timeout ''http://x.de'' False (- 1) \<lparr>browser = 7, page = 0\<rparr>
       = (Inr (), \<lparr>browser = 7, page = 0\<rparr>, [])"
  by code_simp

text \<open>
  C2, amended. For every url and every integer \<open>maxRetries \<ge> 0\<close>, \<^verbatim>\<open>goto\<close> raises if and
  only if all of the \<open>maxRetries + 1\<close> attempts fail; the error raised then has the
  message built from the url, the attempt count \<open>maxRetries + 1\<close> and the message of the
  last failure; and when \<^verbatim>\<open>goto\<close> returns normally, the most recent health probe answered
  healthy. So a navigation that fails twice and succeeds on the third attempt returns
  normally with the session healthy.
\<close>

theorem goto_raises_iff_all_attempts_fail:
  assumes "0 \<le> maxRetries"
  shows "isl (fst (goto env url spa maxRetries c))
           = all_attempts_fail env (normalize_url url) spa maxRetries
         \<and> (if all_attempts_fail env (normalize_url url) spa maxRetries
            then fst (goto env url spa maxRetries c)
                   = Inl (Error (terminal_message (normalize_url url) maxRetries
                       (failure_message (env (nat maxRetries)) (normalize_url url) spa)))
            else fst (goto env url spa maxRetries c) = Inr ()
                 \<and> last_probe (snd (snd (goto env url spa maxRetries c))) = Some True)
         \<and> (2 \<le> maxRetries \<and> \<not> attempt_fails (env 2) (normalize_url url) spa
              \<longrightarrow> fst (goto env url spa maxRetries c) = Inr ())"
proof -
  let ?u = "normalize_url url"
  have g: "goto env url spa maxRetries c = goto_loop env ?u spa maxRetries 0 c"
    by (simp add: goto_def normalize_url_def)
  have iff: "isl (fst (goto env url spa maxRetries c)) = all_attempts_fail env ?u spa maxRetries"
    using goto_loop_raises_iff [of 0 maxRetries env ?u spa c] assms
    by (simp add: g all_attempts_fail_def)
  have err: "all_attempts_fail env ?u spa maxRetries \<Longrightarrow>
      fst (goto env url spa maxRetries c)
        = Inl (Error (terminal_message ?u maxRetries (failure_message (env (nat maxRetries)) ?u spa)))"
    using goto_loop_error [of 0 maxRetries env ?u spa c] assms iff by (simp add: g)
  have ok: "\<not> all_attempts_fail env ?u spa maxRetries \<Longrightarrow>
      fst (goto env url spa maxRetries c) = Inr ()
      \<and> last_probe (snd (snd (goto env url spa maxRetries c))) = Some True"
    using goto_loop_healthy [of 0 maxRetries env ?u spa c] assms iff
    by (cases "fst (goto env url spa maxRetries c)") (simp_all add: g)
  have third: "2 \<le> maxRetries \<and> \<not> attempt_fails (env 2) ?u spa
      \<longrightarrow> fst (goto env url spa maxRetries c) = Inr ()"
  proof
    assume a: "2 \<le> maxRetries \<and> \<not> attempt_fails (env 2) ?u spa"
    then have "(2::nat) < nat (maxRetries + 1)" by linarith
    then have "2 \<in> set [0..<nat (maxRetries + 1)]" by simp
    with a have "\<not> all_attempts_fail env ?u spa maxRetries"
      unfolding all_attempts_fail_def list_all_iff by blast
    with ok show "fst (goto env url spa maxRetries c) = Inr ()" by simp
  qed
  from iff err ok third show ?thesis by simp
qed

theorem goto_raises_iff_all_attempts_fail_witness:
  "(0::int) \<le> 3
   \<and> attempt_fails (env_third_time 0) (normalize_url ''www.x.de'') False
   \<and> attempt_fails (env_third_time 1) (normalize_url ''www.x.de'') False
   \<and> \<not> attempt_fails (env_third_time 2) (normalize_url ''www.x.de'') False
   \<and> goto env_third_time ''www.x.de'' False 3 \<lparr>browser = 7, page = 0\<rparr>
       = (Inr (), \<lparr>browser = 7, page = 0\<rparr>,
          [Probe True, Navigate ''http://www.x.de'' False, Sleep 1000,
           Probe True, Navigate ''http://www.x.de'' False, Sleep 2000,
           Probe True, Navigate ''http://www.x.de'' False])
   \<and> last_probe (snd (snd (goto env_third_time ''www.x.de'' False 3 \<lparr>browser = 7, page = 0\<rparr>)))
       = Some True
   \<and> (0::int) \<le> 1
   \<and> all_attempts_fail env_always_timeout (normalize_url ''http://x.de'') False 1
   \<and> fst (goto env_always_timeout ''http://x.de'' False 1 \<lparr>browser = 7, page = 0\<rparr>)
       = Inl (Error
           ''Failed to navigate to http://x.de after 2 attempts: Timeout 30000ms exceeded'')"
proof -
  have a: "attempt_fails (env_third_time 0) (normalize_url ''www.x.de'') False
     \<and> attempt_fails (env_third_time 1) (normalize_url ''www.x.de'') False
     \<and> \<not> attempt_fails (env_third_time 2) (normalize_url ''www.x.de'') False"
    by code_simp
  have b: "goto env_third_time ''www.x.de'' False 3 \<lparr>browser = 7, page = 0\<rparr>
       = (Inr (), \<lparr>browser = 7, page = 0\<rparr>,
          [Probe True, Navigate ''http://www.x.de'' False, Sleep 1000,
           Probe True, Navigate ''http://www.x.de'' False, Sleep 2000,
           Probe True, Navigate ''http://www.x.de'' False])"
    by code_simp
  have c: "all_attempts_fail env_always_timeout (normalize_url ''http://x.de'') False 1"
    by code_simp
  have d: "\<not> all_attempts_fail env_third_time (normalize_url ''www.x.de'') False 3"
    by code_simp
  have e: "terminal_message (normalize_url ''http://x.de'') 1
             (failure_message (env_always_timeout (nat 1)) (normalize_url ''http://x.de'') False)
           = ''Failed to navigate to http://x.de after 2 attempts: Timeout 30000ms exceeded''"
    by code_simp
  have h3: "(0::int) \<le> 3" and h1: "(0::int) \<le> 1" by simp_all
  show ?thesis
    using goto_raises_iff_all_attempts_fail
            [OF h3, of env_third_time "''www.x.de''" False "\<lparr>browser = 7, page = 0\<rparr>"]
          goto_raises_iff_all_attempts_fail
            [OF h1, of env_always_timeout "''http://x.de''" False "\<lparr>browser = 7, page = 0\<rparr>"]
          a b c d e
    by simp
qed











section \<open>Grouping and enrichment\<close>

lemma map_of_set_group: "map_of (set_group k g result) = (map_of result)(k \<mapsto> g)"
  by (induction k g result rule: set_group.induct) (simp_all add: fun_eq_iff)

lemma set_keys_set_group:
  "set (map fst (set_group k g result)) = insert k (set (map fst result))"
  by (induction k g result rule: set_group.induct) (simp_all add: insert_commute)

lemma distinct_keys_set_group:
  "distinct (map fst result) \<Longrightarrow> distinct (map fst (set_group k g result))"
proof (induction k g result rule: set_group.induct)
  case (1 k g)
  then show ?case by simp
next
  case (2 k g k' g' result)
  show ?case
  proof (cases "k' = k")
    case True
    with "2.prems" show ?thesis by simp
  next
    case False
    have "k' \<notin> set (map fst (set_group k g result))"
      using "2.prems" False unfolding set_keys_set_group by simp
    with 2 False show ?thesis by simp
  qed
qed

lemma mset_set_group_new:
  "map_of result k = None \<Longrightarrow>
   mset (concat (map snd (set_group k g result))) = mset (concat (map snd result)) + mset g"
  by (induction k g result rule: set_group.induct) (simp_all split: if_splits)

lemma mset_set_group_old:
  "map_of result k = Some old \<Longrightarrow>
   mset (concat (map snd (set_group k (old @ g) result))) = mset (concat (map snd result)) + mset g"
  by (induction k "old @ g" result rule: set_group.induct) (simp_all split: if_splits)

lemma mset_push_group:
  "mset (concat (map snd (push_group k x result))) = mset (concat (map snd result)) + {#x#}"
proof (cases "map_of result k")
  case None
  then show ?thesis using mset_set_group_new [of result k "[x]"] by (simp add: push_group_def)
next
  case (Some old)
  then show ?thesis using mset_set_group_old [of result k old "[x]"] by (simp add: push_group_def)
qed

lemma distinct_keys_push_group:
  "distinct (map fst result) \<Longrightarrow> distinct (map fst (push_group k x result))"
  by (cases "map_of result k") (simp_all add: push_group_def distinct_keys_set_group)

lemma map_of_push_group:
  "map_of (push_group k x result) k'
     = (if k' = k then Some ((case map_of result k of None \<Rightarrow> [] | Some g \<Rightarrow> g) @ [x])
        else map_of result k')"
  by (cases "map_of result k") (simp_all add: push_group_def map_of_set_group)

lemma mset_groupBy_reduce:
  "mset (concat (map snd (groupBy_reduce f items idx result)))
     = mset (concat (map snd result)) + mset items"
  by (induction items arbitrary: idx result) (simp_all add: mset_push_group)

lemma distinct_keys_groupBy_reduce:
  "distinct (map fst result) \<Longrightarrow> distinct (map fst (groupBy_reduce f items idx result))"
  by (induction items arbitrary: idx result) (simp_all add: distinct_keys_push_group)

lemma map_of_groupBy_reduce:
  "map_of (groupBy_reduce f items idx result) k
     = (if members f k items idx = [] then map_of result k
        else Some ((case map_of result k of None \<Rightarrow> [] | Some g \<Rightarrow> g) @ members f k items idx))"
  by (induction items arbitrary: idx result) (simp_all add: map_of_push_group)

lemma members_upt:
  "members (\<lambda>x i. g i) k [a..<b] a = filter (\<lambda>i. g i = k) [a..<b]"
proof (induction "b - a" arbitrary: a)
  case 0
  then show ?case by simp
next
  case (Suc n)
  then have "a < b" by simp
  then have "[a..<b] = a # [a + 1..<b]" using upt_conv_Cons [of a b] by simp
  moreover have "members (\<lambda>x i. g i) k [a + 1..<b] (a + 1) = filter (\<lambda>i. g i = k) [a + 1..<b]"
    using Suc.hyps(1) [of "a + 1"] Suc.hyps(2) by simp
  ultimately show ?case by simp
qed

lemma groupBy_positions:
  "(k, refs) \<in> set (groupBy [0..<m] (\<lambda>x i. g i))
     \<longleftrightarrow> refs = filter (\<lambda>i. g i = k) [0..<m] \<and> refs \<noteq> []"
proof -
  let ?gs = "groupBy [0..<m] (\<lambda>x i. g i)"
  have d: "distinct (map fst ?gs)"
    by (simp add: groupBy_def distinct_keys_groupBy_reduce)
  have "(k, refs) \<in> set ?gs \<longleftrightarrow> map_of ?gs k = Some refs"
    using d by simp
  also have "map_of ?gs k = (if filter (\<lambda>i. g i = k) [0..<m] = [] then None
                             else Some (filter (\<lambda>i. g i = k) [0..<m]))"
    unfolding groupBy_def map_of_groupBy_reduce members_upt by simp
  finally show ?thesis by (cases "filter (\<lambda>i. g i = k) [0..<m] = []") auto
qed

lemma groupBy_refs:
  "distinct (concat (map snd (groupBy [0..<m] f)))
   \<and> set (concat (map snd (groupBy [0..<m] f))) = {0..<m}"
proof -
  have ms: "mset (concat (map snd (groupBy [0..<m] f))) = mset [0..<m]"
    by (simp add: groupBy_def mset_groupBy_reduce)
  have "distinct (concat (map snd (groupBy [0..<m] f)))"
    using mset_eq_imp_distinct_iff [OF ms] by simp
  moreover have "set (concat (map snd (groupBy [0..<m] f))) = {0..<m}"
    using mset_eq_setD [OF ms] by simp
  ultimately show ?thesis by simp
qed

lemma goto_result_independent:
  assumes "0 \<le> m"
  shows "fst (goto env url spa m c) = fst (goto env url spa m c')"
proof -
  let ?u = "if prefix ''http'' url then url else ''http://'' @ url"
  have i: "isl (fst (goto_loop env ?u spa m 0 c)) = isl (fst (goto_loop env ?u spa m 0 c'))"
    using goto_loop_raises_iff [of 0 m env ?u spa] assms by simp
  show ?thesis
  proof (cases "isl (fst (goto_loop env ?u spa m 0 c))")
    case True
    then show ?thesis
      using goto_loop_error [of 0 m env ?u spa c] goto_loop_error [of 0 m env ?u spa c'] i assms
      by (simp add: goto_def)
  next
    case False
    with i have "fst (goto_loop env ?u spa m 0 c) = Inr ()" "fst (goto_loop env ?u spa m 0 c') = Inr ()"
      by (cases "fst (goto_loop env ?u spa m 0 c)"; cases "fst (goto_loop env ?u spa m 0 c')"; simp)+
    then show ?thesis by (simp add: goto_def)
  qed
qed

lemma navigate_once_None:
  "navigate_once e url (None, r)
     = (Inl (Error ''Cannot read properties of undefined (reading 'goto')''), (None, r + 1))"
  by (simp add: navigate_once_def)

lemma navigate_once_Some:
  "\<exists>c'. snd (navigate_once e url (Some c, r)) = (Some c', r + 1)"
  by (simp add: navigate_once_def split: prod.splits sum.splits)

lemma navigate_once_result_independent:
  "fst (navigate_once e url (Some c, r)) = fst (navigate_once e url (Some c', r))"
proof -
  have s: "fst (goto (spa_obs e r) url True 2 c) = fst (goto (spa_obs e r) url True 2 c')"
    by (rule goto_result_independent) simp
  obtain r1 c1 ev1 where g1: "goto (spa_obs e r) url True 2 c = (r1, c1, ev1)"
    by (cases "goto (spa_obs e r) url True 2 c")
  obtain r2 c2 ev2 where g2: "goto (spa_obs e r) url True 2 c' = (r2, c2, ev2)"
    by (cases "goto (spa_obs e r) url True 2 c'")
  from s g1 g2 have eq: "r1 = r2" by simp
  have f: "fst (goto (full_obs e r) url False 3 c1) = fst (goto (full_obs e r) url False 3 c2)"
    by (rule goto_result_independent) simp
  show ?thesis
    using g1 g2 eq f by (cases r2) (auto simp: navigate_once_def split: prod.splits)
qed

lemma navigate_once_related:
  assumes "same_definedness s t"
  shows "fst (navigate_once e url s) = fst (navigate_once e url t)
         \<and> same_definedness (snd (navigate_once e url s)) (snd (navigate_once e url t))"
proof -
  obtain cs r where s: "s = (cs, r)" by (cases s)
  obtain ct r' where t: "t = (ct, r')" by (cases t)
  from assms s t have r: "r' = r" and d: "(cs = None) = (ct = None)"
    by (simp_all add: same_definedness_def)
  show ?thesis
  proof (cases cs)
    case None
    with d have "ct = None" by simp
    with None s t r show ?thesis by (simp add: navigate_once_None same_definedness_def)
  next
    case (Some c)
    with d obtain c' where ct: "ct = Some c'" by (cases ct) auto
    from navigate_once_Some [of e url c r] navigate_once_Some [of e url c' r]
         navigate_once_result_independent [of e url c r c']
    show ?thesis using Some ct s t r by (auto simp: same_definedness_def)
  qed
qed

lemma backoff_loop_related:
  "(\<forall>s t. R s t \<longrightarrow> fst (fn s) = fst (fn t) \<and> R (snd (fn s)) (snd (fn t))) \<Longrightarrow> R s t \<Longrightarrow>
     fst (exponentialBackoff_loop fn n d a err s) = fst (exponentialBackoff_loop fn n d a err t)
     \<and> R (fst (snd (exponentialBackoff_loop fn n d a err s)))
          (fst (snd (exponentialBackoff_loop fn n d a err t)))"
proof (induction fn n d a err s arbitrary: t rule: exponentialBackoff_loop.induct)
  case (1 fn maxRetries delay attempt error s)
  note eqs = exponentialBackoff_loop.simps [of fn maxRetries delay attempt error s]
  note eqt = exponentialBackoff_loop.simps [of fn maxRetries delay attempt error t]
  show ?case
  proof (cases "attempt < maxRetries")
    case False
    then show ?thesis using "1.prems" by (simp add: eqs eqt)
  next
    case True
    obtain rs s' where fs: "fn s = (rs, s')" by (cases "fn s")
    obtain rt t' where ft: "fn t = (rt, t')" by (cases "fn t")
    from "1.prems" have st: "fst (fn s) = fst (fn t) \<and> R (snd (fn s)) (snd (fn t))"
      by blast
    have rr: "rt = rs" using st fs ft by simp
    have R': "R s' t'" using st fs ft by simp
    show ?thesis
    proof (cases rs)
      case (Inr v)
      with True fs ft rr R' show ?thesis by (simp add: eqs eqt)
    next
      case (Inl e)
      show ?thesis
      proof (cases "attempt = maxRetries - 1")
        case last: True
        have "exponentialBackoff_loop fn maxRetries delay attempt error s = (Inl e, s', [FnCall])"
          unfolding eqs using True fs Inl last by simp
        moreover have "exponentialBackoff_loop fn maxRetries delay attempt error t = (Inl e, t', [FnCall])"
          unfolding eqt using True ft rr Inl last by simp
        ultimately show ?thesis using R' by simp
      next
        case False
        note ih = "1.IH" [OF True fs [symmetric] Inl False "1.prems"(1) R']
        obtain r2 s2 evs where recs:
          "exponentialBackoff_loop fn maxRetries delay (attempt + 1) e s' = (r2, s2, evs)"
          by (cases "exponentialBackoff_loop fn maxRetries delay (attempt + 1) e s'")
        obtain r3 t3 evt where rect:
          "exponentialBackoff_loop fn maxRetries delay (attempt + 1) e t' = (r3, t3, evt)"
          by (cases "exponentialBackoff_loop fn maxRetries delay (attempt + 1) e t'")
        have "exponentialBackoff_loop fn maxRetries delay attempt error s
                = (r2, s2, FnCall # Delay (delay * 2 ^ nat attempt) # evs)"
          unfolding eqs using True fs Inl False recs by simp
        moreover have "exponentialBackoff_loop fn maxRetries delay attempt error t
                = (r3, t3, FnCall # Delay (delay * 2 ^ nat attempt) # evt)"
          unfolding eqt using True ft rr Inl False rect by simp
        ultimately show ?thesis using ih recs rect by simp
      qed
    qed
  qed
qed

lemma navigate_once_definedness:
  "(fst (snd (navigate_once e url s)) = None) = (fst s = None)"
proof (cases s)
  case (Pair co r)
  show ?thesis
  proof (cases co)
    case None
    with Pair show ?thesis by (simp add: navigate_once_None)
  next
    case (Some c)
    with Pair navigate_once_Some [of e url c r] show ?thesis by auto
  qed
qed

lemma backoff_navigation_related:
  assumes "(co = None) = (co' = None)"
  shows "fst (exponentialBackoff (navigate_once e url) n d (co, 0))
           = fst (exponentialBackoff (navigate_once e url) n d (co', 0))
         \<and> (fst (fst (snd (exponentialBackoff (navigate_once e url) n d (co, 0)))) = None)
             = (co = None)
         \<and> (fst (fst (snd (exponentialBackoff (navigate_once e url) n d (co', 0)))) = None)
             = (co = None)"
proof -
  define R where "R = (\<lambda>s t. same_definedness s t \<and> (fst s = None) = (co = None))"
  have step: "\<forall>s t. R s t \<longrightarrow> fst (navigate_once e url s) = fst (navigate_once e url t)
                \<and> R (snd (navigate_once e url s)) (snd (navigate_once e url t))"
  proof (intro allI impI)
    fix s t assume "R s t"
    then have sd: "same_definedness s t" and n: "(fst s = None) = (co = None)"
      by (simp_all add: R_def)
    from navigate_once_related [OF sd, of e url] navigate_once_definedness [of e url s] n
    show "fst (navigate_once e url s) = fst (navigate_once e url t)
            \<and> R (snd (navigate_once e url s)) (snd (navigate_once e url t))"
      by (simp add: R_def)
  qed
  have "R (co, 0) (co', 0)" using assms by (simp add: R_def same_definedness_def)
  from backoff_loop_related [OF step this, of n d 0 Undefined]
  show ?thesis by (auto simp: exponentialBackoff_def R_def same_definedness_def)
qed

lemma enrich_posting_related:
  assumes "(w_crawler w = None) = (w_crawler w' = None)"
  shows "fst (enrich_posting tools e w p) = fst (enrich_posting tools e w' p)
         \<and> (w_crawler (snd (enrich_posting tools e w p)) = None) = (w_crawler w = None)"
proof -
  define w1 where "w1 = (if requestCount w mod 10 = 0 \<and> requestCount w > 0
                         then w\<lparr>cleanups := cleanups w + 1\<rparr> else w)"
  define w1' where "w1' = (if requestCount w' mod 10 = 0 \<and> requestCount w' > 0
                         then w'\<lparr>cleanups := cleanups w' + 1\<rparr> else w')"
  have c1: "w_crawler w1 = w_crawler w" and c1': "w_crawler w1' = w_crawler w'"
    by (simp_all add: w1_def w1'_def)
  let ?b = "exponentialBackoff (navigate_once e (detail_url p)) 2 3000 (w_crawler w1, 0)"
  let ?b' = "exponentialBackoff (navigate_once e (detail_url p)) 2 3000 (w_crawler w1', 0)"
  have rel: "fst ?b = fst ?b'" "(fst (fst (snd ?b)) = None) = (w_crawler w = None)"
    using backoff_navigation_related [of "w_crawler w1" "w_crawler w1'" e "detail_url p" 2 3000]
          assms c1 c1' by simp_all
  obtain r co k evs where b: "?b = (r, (co, k), evs)" by (cases ?b) auto
  obtain r' co' k' evs' where b': "?b' = (r', (co', k'), evs')" by (cases ?b') auto
  from rel b b' have rr: "r' = r" and dd: "(co = None) = (w_crawler w = None)" by simp_all
  have u1: "enrich_posting tools e w p =
      (case ?b of
         (Inl err, (c', r), evs) \<Rightarrow> (p, w1\<lparr>w_crawler := c', visits := visits w1 @ [(map_option browser (w_crawler w1), detail_url p)]\<rparr>)
       | (Inr u, (c', r), evs) \<Rightarrow>
           (extract_details tools e p,
            w1\<lparr>w_crawler := c', requestCount := requestCount w1 + 1, visits := visits w1 @ [(map_option browser (w_crawler w1), detail_url p)]\<rparr>))"
    unfolding enrich_posting_def Let_def w1_def ..
  have u2: "enrich_posting tools e w' p =
      (case ?b' of
         (Inl err, (c', r), evs) \<Rightarrow> (p, w1'\<lparr>w_crawler := c', visits := visits w1' @ [(map_option browser (w_crawler w1'), detail_url p)]\<rparr>)
       | (Inr u, (c', r), evs) \<Rightarrow>
           (extract_details tools e p,
            w1'\<lparr>w_crawler := c', requestCount := requestCount w1' + 1, visits := visits w1' @ [(map_option browser (w_crawler w1'), detail_url p)]\<rparr>))"
    unfolding enrich_posting_def Let_def w1'_def ..
  have e1: "enrich_posting tools e w p =
      (case r of Inl err \<Rightarrow> (p, w1\<lparr>w_crawler := co, visits := visits w1 @ [(map_option browser (w_crawler w1), detail_url p)]\<rparr>)
       | Inr u \<Rightarrow>
           (extract_details tools e p,
            w1\<lparr>w_crawler := co, requestCount := requestCount w1 + 1, visits := visits w1 @ [(map_option browser (w_crawler w1), detail_url p)]\<rparr>))"
    unfolding u1 b by (cases r) simp_all
  have e2: "enrich_posting tools e w' p =
      (case r' of Inl err \<Rightarrow> (p, w1'\<lparr>w_crawler := co', visits := visits w1' @ [(map_option browser (w_crawler w1'), detail_url p)]\<rparr>)
       | Inr u \<Rightarrow>
           (extract_details tools e p,
            w1'\<lparr>w_crawler := co', requestCount := requestCount w1' + 1, visits := visits w1' @ [(map_option browser (w_crawler w1'), detail_url p)]\<rparr>))"
    unfolding u2 b' by (cases r') simp_all
  show ?thesis unfolding e1 e2 using rr dd by (cases r) simp_all
qed

lemma enrich_posting_enriched:
  "fst (enrich_posting tools e w p) = enriched tools e (w_crawler w \<noteq> None) p"
proof -
  have "(w_crawler w = None) = (w_crawler (pristine (w_crawler w \<noteq> None)) = None)"
    by (simp add: pristine_def)
  from enrich_posting_related [OF this, of tools e p]
  show ?thesis unfolding enriched_def by (rule conjunct1)
qed

lemma enrich_partition_nth:
  "distinct refs \<Longrightarrow> \<forall>r\<in>set refs. r < length store \<Longrightarrow>
   length (fst (enrich_partition tools envs refs w store)) = length store
   \<and> (\<forall>j<length store. fst (enrich_partition tools envs refs w store) ! j
         = (if j \<in> set refs then enriched tools (envs j) (w_crawler w \<noteq> None) (store ! j)
            else store ! j))
   \<and> (w_crawler (snd (enrich_partition tools envs refs w store)) = None) = (w_crawler w = None)"
proof (induction refs arbitrary: w store)
  case Nil
  then show ?case by simp
next
  case (Cons ref refs)
  obtain p' w' where st: "enrich_posting tools (envs ref) w (store ! ref) = (p', w')"
    by (cases "enrich_posting tools (envs ref) w (store ! ref)")
  have p': "p' = enriched tools (envs ref) (w_crawler w \<noteq> None) (store ! ref)"
    using enrich_posting_enriched [of tools "envs ref" w "store ! ref"] st by simp
  have d': "(w_crawler w' = None) = (w_crawler w = None)"
    using enrich_posting_related [of w w tools "envs ref" "store ! ref"] st by simp
  have ih: "length (fst (enrich_partition tools envs refs w' (store[ref := p']))) = length store
   \<and> (\<forall>j<length store. fst (enrich_partition tools envs refs w' (store[ref := p'])) ! j
         = (if j \<in> set refs then enriched tools (envs j) (w_crawler w' \<noteq> None) (store[ref := p'] ! j)
            else store[ref := p'] ! j))
   \<and> (w_crawler (snd (enrich_partition tools envs refs w' (store[ref := p']))) = None)
        = (w_crawler w' = None)"
    using Cons.IH [of "store[ref := p']" w'] Cons.prems by simp
  have nin: "ref \<notin> set refs" and lt: "ref < length store" using Cons.prems by simp_all
  have step: "enrich_partition tools envs (ref # refs) w store
                = enrich_partition tools envs refs w' (store[ref := p'])"
    using st by simp
  show ?case unfolding step
  proof (intro conjI allI impI)
    show "length (fst (enrich_partition tools envs refs w' (store[ref := p']))) = length store"
      using ih by simp
    show "(w_crawler (snd (enrich_partition tools envs refs w' (store[ref := p']))) = None)
            = (w_crawler w = None)"
      using ih d' by simp
    fix j assume j: "j < length store"
    then have ihj: "fst (enrich_partition tools envs refs w' (store[ref := p'])) ! j
         = (if j \<in> set refs then enriched tools (envs j) (w_crawler w' \<noteq> None) (store[ref := p'] ! j)
            else store[ref := p'] ! j)"
      using ih by blast
    show "fst (enrich_partition tools envs refs w' (store[ref := p'])) ! j
         = (if j \<in> set (ref # refs) then enriched tools (envs j) (w_crawler w \<noteq> None) (store ! j)
            else store ! j)"
    proof (cases "j = ref")
      case True
      with ihj nin lt p' show ?thesis by simp
    next
      case False
      with ihj d' show ?thesis by simp
    qed
  qed
qed

lemma crawler_at_defined: "(crawler_at pool k \<noteq> None) = key_ok (length pool) k"
  by (simp add: crawler_at_def key_ok_def split: option.splits)

lemma length_store_crawler: "length (store_crawler pool k c) = length pool"
  by (simp add: store_crawler_def split: option.splits)

lemma fold_run_partition_nth:
  "distinct (concat (map snd groups)) \<Longrightarrow>
   \<forall>r\<in>set (concat (map snd groups)). r < length store \<Longrightarrow>
   \<forall>k\<in>set (map fst groups). key_ok (length pool) k = hc \<Longrightarrow>
   length (fst (fold (run_partition tools envs) groups (store, pool, log))) = length store
   \<and> (\<forall>j<length store. fst (fold (run_partition tools envs) groups (store, pool, log)) ! j
         = (if j \<in> set (concat (map snd groups)) then enriched tools (envs j) hc (store ! j)
            else store ! j))
   \<and> length (fst (snd (fold (run_partition tools envs) groups (store, pool, log)))) = length pool"
proof (induction groups arbitrary: store pool log)
  case Nil
  then show ?case by simp
next
  case (Cons g groups)
  obtain k refs where g: "g = (k, refs)" by (cases g)
  let ?w = "\<lparr>w_crawler = crawler_at pool k, requestCount = 0, cleanups = 0, visits = []\<rparr>"
  obtain store' w' where ep: "enrich_partition tools envs refs ?w store = (store', w')"
    by (cases "enrich_partition tools envs refs ?w store")
  let ?pool' = "store_crawler pool k (w_crawler w')"
  let ?log' = "log @ [visits w']"
  have rp: "run_partition tools envs g (store, pool, log) = (store', ?pool', ?log')"
    using g ep by (simp add: run_partition_def)
  have dr: "distinct refs" and rr: "\<forall>r\<in>set refs. r < length store"
    using Cons.prems g by simp_all
  have hc: "(w_crawler ?w \<noteq> None) = hc"
    using Cons.prems(3) g crawler_at_defined [of pool k] by simp
  note pn = enrich_partition_nth [OF dr rr, of tools envs ?w]
  have len: "length store' = length store" using pn ep by simp
  have nth: "\<forall>j<length store. store' ! j
         = (if j \<in> set refs then enriched tools (envs j) hc (store ! j) else store ! j)"
    using pn ep hc by simp
  have lp: "length ?pool' = length pool" by (rule length_store_crawler)
  have ih: "length (fst (fold (run_partition tools envs) groups (store', ?pool', ?log'))) = length store'
   \<and> (\<forall>j<length store'. fst (fold (run_partition tools envs) groups (store', ?pool', ?log')) ! j
         = (if j \<in> set (concat (map snd groups)) then enriched tools (envs j) hc (store' ! j)
            else store' ! j))
   \<and> length (fst (snd (fold (run_partition tools envs) groups (store', ?pool', ?log')))) = length ?pool'"
    using Cons.IH [of store' ?pool' ?log'] Cons.prems g len lp by simp
  have disj: "set refs \<inter> set (concat (map snd groups)) = {}"
    using Cons.prems(1) g by simp
  have f: "fold (run_partition tools envs) (g # groups) (store, pool, log)
             = fold (run_partition tools envs) groups (store', ?pool', ?log')"
    using rp by simp
  show ?case unfolding f
  proof (intro conjI allI impI)
    show "length (fst (fold (run_partition tools envs) groups (store', ?pool', ?log'))) = length store"
      using ih len by simp
    show "length (fst (snd (fold (run_partition tools envs) groups (store', ?pool', ?log')))) = length pool"
      using ih lp by simp
    fix j assume j: "j < length store"
    then have ihj: "fst (fold (run_partition tools envs) groups (store', ?pool', ?log')) ! j
         = (if j \<in> set (concat (map snd groups)) then enriched tools (envs j) hc (store' ! j)
            else store' ! j)"
      using ih len by simp
    have nj: "store' ! j = (if j \<in> set refs then enriched tools (envs j) hc (store ! j) else store ! j)"
      using nth j by blast
    show "fst (fold (run_partition tools envs) groups (store', ?pool', ?log')) ! j
         = (if j \<in> set (concat (map snd (g # groups))) then enriched tools (envs j) hc (store ! j)
            else store ! j)"
    proof (cases "j \<in> set refs")
      case True
      then have "j \<notin> set (concat (map snd groups))" using disj by blast
      with ihj nj True g show ?thesis by simp
    next
      case False
      with ihj nj g show ?thesis by simp
    qed
  qed
qed

lemma group_key_ok: "key_ok n (group_key n i) = (n \<noteq> 0)"
  by (simp add: key_ok_def group_key_def)

lemma addCompanyData_nth:
  "length (fst (addCompanyData tools envs pool batch)) = length batch
   \<and> (\<forall>j<length batch. fst (addCompanyData tools envs pool batch) ! j
         = enriched tools (envs j) (pool \<noteq> []) (batch ! j))
   \<and> length (fst (snd (addCompanyData tools envs pool batch))) = length pool"
proof -
  let ?gs = "groupBy [0..<length batch] (\<lambda>posting i. group_key (length pool) i)"
  have d: "distinct (concat (map snd ?gs))" and s: "set (concat (map snd ?gs)) = {0..<length batch}"
    using groupBy_refs [of "length batch" "\<lambda>posting i. group_key (length pool) i"] by simp_all
  have r: "\<forall>r\<in>set (concat (map snd ?gs)). r < length batch"
    unfolding s by simp
  have k: "\<forall>k\<in>set (map fst ?gs). key_ok (length pool) k = (pool \<noteq> [])"
  proof
    fix k assume "k \<in> set (map fst ?gs)"
    then obtain refs where "(k, refs) \<in> set ?gs" by auto
    then have fr: "refs = filter (\<lambda>i. group_key (length pool) i = k) [0..<length batch] \<and> refs \<noteq> []"
      using groupBy_positions [of k refs "length batch" "group_key (length pool)"] by blast
    then have "refs \<noteq> []" by blast
    then obtain i rs where "refs = i # rs" by (cases refs) auto
    then have "i \<in> set refs" by simp
    with fr have "i \<in> set (filter (\<lambda>i. group_key (length pool) i = k) [0..<length batch])"
      by simp
    then have "group_key (length pool) i = k" by simp
    then show "key_ok (length pool) k = (pool \<noteq> [])"
      using group_key_ok [of "length pool" i] by simp
  qed
  from fold_run_partition_nth [OF d r k, of tools envs "[]"]
  show ?thesis unfolding addCompanyData_def Let_def s by simp
qed

lemma digit_not_space: "is_digit c \<Longrightarrow> \<not> is_space c"
  by (auto simp: is_digit_def is_space_def)

lemma digit_not_sign: "is_digit c \<Longrightarrow> c \<noteq> CHR ''-'' \<and> c \<noteq> CHR ''+''"
  by (auto simp: is_digit_def)

lemma digit_val_le: "is_digit c \<Longrightarrow> digit_val c \<le> 9"
  by (auto simp: is_digit_def digit_val_def)

lemma match_digits5_Some:
  "match_digits5 a = Some m \<Longrightarrow> length m = 5 \<and> list_all is_digit m"
  by (induction a) (auto split: if_splits)

lemma parseInt10_digits5:
  assumes "length m = 5" "list_all is_digit m"
  shows "\<exists>n. parseInt10 m = Num n \<and> 0 \<le> n \<and> n \<le> 99999"
proof -
  from assms(1) obtain a b c d e where m: "m = [a, b, c, d, e]"
    by (auto simp: length_Suc_conv eval_nat_numeral)
  with assms(2) have dg: "is_digit a" "is_digit b" "is_digit c" "is_digit d" "is_digit e"
    by simp_all
  have v: "digits_value 0 m \<le> 99999"
    using dg[THEN digit_val_le] by (simp add: m)
  have "parseInt10 m = Num (int (digits_value 0 m))"
    using dg digit_not_space[OF dg(1)] digit_not_sign[OF dg(1)]
    by (simp add: parseInt10_def m)
  with v show ?thesis by simp
qed

lemma enriched_cases:
  "enriched tools e hc p = (if navigation_fails e hc p then p else extract_details tools e p)"
proof -
  let ?b = "exponentialBackoff (navigate_once e (detail_url p)) 2 3000 (w_crawler (pristine hc), 0)"
  obtain r co k evs where b: "?b = (r, (co, k), evs)" by (cases ?b) auto
  have rc: "requestCount (pristine hc) = 0" by (simp add: pristine_def)
  have "enrich_posting tools e (pristine hc) p =
      (case ?b of
         (Inl err, (c', r), evs) \<Rightarrow>
           (p, (pristine hc)\<lparr>w_crawler := c', visits := visits (pristine hc)
                  @ [(map_option browser (w_crawler (pristine hc)), detail_url p)]\<rparr>)
       | (Inr u, (c', r), evs) \<Rightarrow>
           (extract_details tools e p,
            (pristine hc)\<lparr>w_crawler := c', requestCount := requestCount (pristine hc) + 1,
               visits := visits (pristine hc)
                  @ [(map_option browser (w_crawler (pristine hc)), detail_url p)]\<rparr>))"
    unfolding enrich_posting_def Let_def using rc by simp
  then have "fst (enrich_posting tools e (pristine hc) p)
               = (case r of Inl err \<Rightarrow> p | Inr u \<Rightarrow> extract_details tools e p)"
    unfolding b by (cases r) simp_all
  moreover have "navigation_fails e hc p = isl r"
    unfolding navigation_fails_def b by simp
  ultimately show ?thesis unfolding enriched_def by (cases r) simp_all
qed

lemma enriched_failure:
  "enrichment_fails e hc p \<Longrightarrow> enriched tools e hc p = p"
  by (auto simp: enriched_cases enrichment_fails_def extract_details_def split: sum.splits)

lemma enriched_success:
  "\<not> enrichment_fails e hc p \<Longrightarrow>
     \<exists>d. read_details e = Inr d \<and> enriched tools e hc p = fill_details tools p d"
  by (cases "read_details e") (auto simp: enriched_cases enrichment_fails_def extract_details_def)

lemma postal_ok_getPostalCode: "postal_ok (getPostalCodeFromAddress a)"
proof (cases a)
  case None
  then show ?thesis by (simp add: getPostalCodeFromAddress_def postal_ok_def)
next
  case (Some t)
  show ?thesis
  proof (cases "match_digits5 t")
    case None
    with Some show ?thesis by (simp add: getPostalCodeFromAddress_def postal_ok_def)
  next
    case (Some m)
    from match_digits5_Some [OF Some] have "length m = 5" "list_all is_digit m" by simp_all
    from parseInt10_digits5 [OF this]
    obtain n where "parseInt10 m = Num n" "0 \<le> n" "n \<le> 99999" by blast
    with Some \<open>a = Some t\<close> show ?thesis by (simp add: getPostalCodeFromAddress_def postal_ok_def)
  qed
qed

lemma postal_ok_fill_details: "postal_ok (postal_code (fill_details tools p d))"
proof -
  obtain a b l s where d: "d = (a, b, l, s)" by (cases d)
  show ?thesis
    using postal_ok_getPostalCode [of a] postal_ok_getPostalCode [of b]
    by (cases "getPostalCodeFromAddress a") (simp_all add: d fill_details_def)
qed

lemma postal_ok_enriched:
  "postal_ok (postal_code p) \<Longrightarrow> postal_ok (postal_code (enriched tools e hc p))"
  using enriched_failure [of e hc p tools] enriched_success [of e hc p tools]
        postal_ok_fill_details [of tools p]
  by (cases "enrichment_fails e hc p") auto

lemma goto_browser: "browser (fst (snd (goto env url spa m c))) = browser c"
proof -
  have g: "goto env url spa m c = goto_loop env (normalize_url url) spa m 0 c"
    by (simp add: goto_def normalize_url_def)
  from goto_loop_discipline [of env "normalize_url url" spa m 0 c]
  have "fst (snd (goto env url spa m c)) = c\<lparr>page := page (fst (snd (goto env url spa m c)))\<rparr>"
    unfolding g by simp
  then have "browser (fst (snd (goto env url spa m c)))
               = browser (c\<lparr>page := page (fst (snd (goto env url spa m c)))\<rparr>)"
    by simp
  then show ?thesis by simp
qed

lemma navigate_once_browser:
  "map_option browser (fst (snd (navigate_once e url s))) = map_option browser (fst s)"
proof (cases s)
  case (Pair co r)
  show ?thesis
  proof (cases co)
    case None
    with Pair show ?thesis by (simp add: navigate_once_None)
  next
    case (Some c)
    obtain r1 c1 ev1 where g1: "goto (spa_obs e r) url True 2 c = (r1, c1, ev1)"
      by (cases "goto (spa_obs e r) url True 2 c")
    obtain r2 c2 ev2 where g2: "goto (full_obs e r) url False 3 c1 = (r2, c2, ev2)"
      by (cases "goto (full_obs e r) url False 3 c1")
    have b1: "browser c1 = browser c"
      using goto_browser [of "spa_obs e r" url True 2 c] g1 by simp
    have b2: "browser c2 = browser c1"
      using goto_browser [of "full_obs e r" url False 3 c1] g2 by simp
    show ?thesis
      using Pair Some g1 g2 b1 b2 by (cases r1) (simp_all add: navigate_once_def)
  qed
qed

lemma backoff_navigation_browser:
  "map_option browser (fst (fst (snd (exponentialBackoff (navigate_once e url) n d (co, k)))))
     = map_option browser co"
proof -
  define R where "R = (\<lambda>s t :: crawler option \<times> nat.
                        s = t \<and> map_option browser (fst s) = map_option browser co)"
  have step: "\<forall>s t. R s t \<longrightarrow> fst (navigate_once e url s) = fst (navigate_once e url t)
                \<and> R (snd (navigate_once e url s)) (snd (navigate_once e url t))"
    using navigate_once_browser [of e url] by (simp add: R_def)
  have "R (co, k) (co, k)" by (simp add: R_def)
  from backoff_loop_related [OF step this, of n d 0 Undefined]
  show ?thesis by (simp add: exponentialBackoff_def R_def)
qed

lemma enrich_posting_visits:
  "visits (snd (enrich_posting tools e w p))
     = visits w @ [(map_option browser (w_crawler w), detail_url p)]
   \<and> map_option browser (w_crawler (snd (enrich_posting tools e w p)))
       = map_option browser (w_crawler w)"
proof -
  define w1 where "w1 = (if requestCount w mod 10 = 0 \<and> requestCount w > 0
                         then w\<lparr>cleanups := cleanups w + 1\<rparr> else w)"
  have c1: "w_crawler w1 = w_crawler w" and v1: "visits w1 = visits w"
    by (simp_all add: w1_def)
  let ?b = "exponentialBackoff (navigate_once e (detail_url p)) 2 3000 (w_crawler w1, 0)"
  obtain r co k evs where b: "?b = (r, (co, k), evs)" by (cases ?b) auto
  have bc: "map_option browser co = map_option browser (w_crawler w)"
    using backoff_navigation_browser [of e "detail_url p" 2 3000 "w_crawler w1" 0] b c1 by simp
  have u1: "enrich_posting tools e w p =
      (case ?b of
         (Inl err, (c', r), evs) \<Rightarrow>
           (p, w1\<lparr>w_crawler := c',
                  visits := visits w1 @ [(map_option browser (w_crawler w1), detail_url p)]\<rparr>)
       | (Inr u, (c', r), evs) \<Rightarrow>
           (extract_details tools e p,
            w1\<lparr>w_crawler := c', requestCount := requestCount w1 + 1,
               visits := visits w1 @ [(map_option browser (w_crawler w1), detail_url p)]\<rparr>))"
    unfolding enrich_posting_def Let_def w1_def ..
  show ?thesis unfolding u1 b using bc c1 v1 by (cases r) simp_all
qed

lemma enrich_partition_visits:
  "distinct refs \<Longrightarrow> \<forall>r\<in>set refs. r < length store \<Longrightarrow>
   visits (snd (enrich_partition tools envs refs w store))
     = visits w @ map (\<lambda>r. (map_option browser (w_crawler w), detail_url (store ! r))) refs
   \<and> map_option browser (w_crawler (snd (enrich_partition tools envs refs w store)))
       = map_option browser (w_crawler w)"
proof (induction refs arbitrary: w store)
  case Nil
  then show ?case by simp
next
  case (Cons ref refs)
  obtain p' w' where st: "enrich_posting tools (envs ref) w (store ! ref) = (p', w')"
    by (cases "enrich_posting tools (envs ref) w (store ! ref)")
  from enrich_posting_visits [of tools "envs ref" w "store ! ref"] st
  have v': "visits w' = visits w @ [(map_option browser (w_crawler w), detail_url (store ! ref))]"
    and b': "map_option browser (w_crawler w') = map_option browser (w_crawler w)"
    by simp_all
  have nin: "ref \<notin> set refs" using Cons.prems by simp
  have same: "map (\<lambda>r. (map_option browser (w_crawler w'), detail_url (store[ref := p'] ! r))) refs
                = map (\<lambda>r. (map_option browser (w_crawler w), detail_url (store ! r))) refs"
  proof (intro map_cong refl)
    fix r assume "r \<in> set refs"
    with nin have "r \<noteq> ref" by auto
    then have "store[ref := p'] ! r = store ! r" by simp
    with b' show "(map_option browser (w_crawler w'), detail_url (store[ref := p'] ! r))
                    = (map_option browser (w_crawler w), detail_url (store ! r))"
      by simp
  qed
  have ih: "visits (snd (enrich_partition tools envs refs w' (store[ref := p'])))
     = visits w' @ map (\<lambda>r. (map_option browser (w_crawler w'), detail_url (store[ref := p'] ! r))) refs
   \<and> map_option browser (w_crawler (snd (enrich_partition tools envs refs w' (store[ref := p']))))
       = map_option browser (w_crawler w')"
    using Cons.IH [of "store[ref := p']" w'] Cons.prems by simp
  have step: "enrich_partition tools envs (ref # refs) w store
                = enrich_partition tools envs refs w' (store[ref := p'])"
    using st by simp
  show ?case unfolding step using ih v' b' same by simp
qed

lemma store_crawler_browsers:
  "map_option browser c = map_option browser (crawler_at pool k) \<Longrightarrow>
     map browser (store_crawler pool k c) = map browser pool"
  by (auto simp: store_crawler_def crawler_at_def map_update list_update_same_conv
           split: option.splits if_splits)

lemma crawler_at_browsers:
  "map browser pool' = map browser pool \<Longrightarrow>
     map_option browser (crawler_at pool' k) = map_option browser (crawler_at pool k)"
proof -
  assume m: "map browser pool' = map browser pool"
  then have l: "length pool' = length pool" by (metis length_map)
  have "i < length pool \<Longrightarrow> browser (pool' ! i) = browser (pool ! i)" for i
    using m l by (metis nth_map)
  with l show ?thesis by (simp add: crawler_at_def split: option.splits)
qed

lemma fold_run_partition_visits:
  "distinct (concat (map snd groups)) \<Longrightarrow>
   \<forall>r\<in>set (concat (map snd groups)). r < length store \<Longrightarrow>
   snd (snd (fold (run_partition tools envs) groups (store, pool, log)))
     = log @ map (\<lambda>(k, refs). map (\<lambda>r. (map_option browser (crawler_at pool k),
                                           detail_url (store ! r))) refs) groups
   \<and> map browser (fst (snd (fold (run_partition tools envs) groups (store, pool, log))))
       = map browser pool"
proof (induction groups arbitrary: store pool log)
  case Nil
  then show ?case by simp
next
  case (Cons g groups)
  obtain k refs where g: "g = (k, refs)" by (cases g)
  let ?w = "\<lparr>w_crawler = crawler_at pool k, requestCount = 0, cleanups = 0, visits = []\<rparr>"
  obtain store' w' where ep: "enrich_partition tools envs refs ?w store = (store', w')"
    by (cases "enrich_partition tools envs refs ?w store")
  let ?pool' = "store_crawler pool k (w_crawler w')"
  let ?log' = "log @ [visits w']"
  have rp: "run_partition tools envs g (store, pool, log) = (store', ?pool', ?log')"
    using g ep by (simp add: run_partition_def)
  have dr: "distinct refs" and rr: "\<forall>r\<in>set refs. r < length store"
    using Cons.prems g by simp_all
  note pn = enrich_partition_nth [OF dr rr, of tools envs ?w]
  note pv = enrich_partition_visits [OF dr rr, of tools envs ?w]
  have len: "length store' = length store" using pn ep by simp
  have keep: "\<forall>j<length store. j \<notin> set refs \<longrightarrow> store' ! j = store ! j"
    using pn ep by simp
  have vw: "visits w' = map (\<lambda>r. (map_option browser (crawler_at pool k), detail_url (store ! r))) refs"
    and bw: "map_option browser (w_crawler w') = map_option browser (crawler_at pool k)"
    using pv ep by simp_all
  have bp: "map browser ?pool' = map browser pool"
    by (rule store_crawler_browsers [OF bw])
  have disj: "set refs \<inter> set (concat (map snd groups)) = {}"
    using Cons.prems(1) g by simp
  have ih: "snd (snd (fold (run_partition tools envs) groups (store', ?pool', ?log')))
     = ?log' @ map (\<lambda>(k, refs). map (\<lambda>r. (map_option browser (crawler_at ?pool' k),
                                           detail_url (store' ! r))) refs) groups
   \<and> map browser (fst (snd (fold (run_partition tools envs) groups (store', ?pool', ?log'))))
       = map browser ?pool'"
    using Cons.IH [of store' ?pool' ?log'] Cons.prems g len by simp
  have same: "map (\<lambda>(k, refs). map (\<lambda>r. (map_option browser (crawler_at ?pool' k),
                                           detail_url (store' ! r))) refs) groups
            = map (\<lambda>(k, refs). map (\<lambda>r. (map_option browser (crawler_at pool k),
                                           detail_url (store ! r))) refs) groups"
  proof (intro map_cong refl)
    fix x assume x: "x \<in> set groups"
    obtain k2 refs2 where x2: "x = (k2, refs2)" by (cases x)
    have "\<forall>r\<in>set refs2. store' ! r = store ! r"
    proof
      fix r assume r: "r \<in> set refs2"
      with x x2 have rc: "r \<in> set (concat (map snd groups))" by force
      with disj have "r \<notin> set refs" by blast
      moreover from rc Cons.prems(2) have "r < length store" by simp
      ultimately show "store' ! r = store ! r" using keep by blast
    qed
    then have "map (\<lambda>r. (map_option browser (crawler_at ?pool' k2), detail_url (store' ! r))) refs2
             = map (\<lambda>r. (map_option browser (crawler_at pool k2), detail_url (store ! r))) refs2"
      using crawler_at_browsers [OF bp, of k2] by (intro map_cong) auto
    then show "(case x of (k, refs) \<Rightarrow> map (\<lambda>r. (map_option browser (crawler_at ?pool' k),
                                           detail_url (store' ! r))) refs)
             = (case x of (k, refs) \<Rightarrow> map (\<lambda>r. (map_option browser (crawler_at pool k),
                                           detail_url (store ! r))) refs)"
      using x2 by simp
  qed
  have f: "fold (run_partition tools envs) (g # groups) (store, pool, log)
             = fold (run_partition tools envs) groups (store', ?pool', ?log')"
    using rp by simp
  show ?case unfolding f using ih same vw bp g by simp
qed

lemma addCompanyData_visits:
  "snd (snd (addCompanyData tools envs pool batch))
     = map (\<lambda>(k, refs). map (\<lambda>r. (map_option browser (crawler_at pool k),
                                    detail_url (batch ! r))) refs)
         (groupBy [0..<length batch] (\<lambda>posting i. group_key (length pool) i))
   \<and> map browser (fst (snd (addCompanyData tools envs pool batch))) = map browser pool"
proof -
  let ?gs = "groupBy [0..<length batch] (\<lambda>posting i. group_key (length pool) i)"
  have d: "distinct (concat (map snd ?gs))" and s: "set (concat (map snd ?gs)) = {0..<length batch}"
    using groupBy_refs [of "length batch" "\<lambda>posting i. group_key (length pool) i"] by simp_all
  have r: "\<forall>r\<in>set (concat (map snd ?gs)). r < length batch"
    unfolding s by simp
  from fold_run_partition_visits [OF d r, of tools envs pool "[]"]
  show ?thesis unfolding addCompanyData_def Let_def by simp
qed

lemma keys_set_group:
  "map fst (set_group k g result)
     = (if k \<in> set (map fst result) then map fst result else map fst result @ [k])"
  by (induction k g result rule: set_group.induct) auto

lemma keys_push_group:
  "map fst (push_group k x result)
     = (if k \<in> set (map fst result) then map fst result else map fst result @ [k])"
  by (cases "map_of result k") (simp_all add: push_group_def keys_set_group)

lemma keys_groupBy_round_robin:
  "0 < n \<Longrightarrow> a \<le> b \<Longrightarrow> map fst result = map Some [0..<min a n] \<Longrightarrow>
     map fst (groupBy_reduce (\<lambda>x i. group_key n i) [a..<b] a result) = map Some [0..<min b n]"
proof (induction "b - a" arbitrary: a result)
  case 0
  then show ?case by simp
next
  case (Suc d)
  then have lt: "a < b" by simp
  then have up: "[a..<b] = a # [a + 1..<b]" using upt_conv_Cons [of a b] by simp
  let ?r = "push_group (group_key n a) a result"
  have key: "group_key n a = Some (a mod n)" using Suc.prems(1) by (simp add: group_key_def)
  have keys: "map fst ?r = map Some [0..<min (a + 1) n]"
  proof (cases "a < n")
    case True
    then have "Some (a mod n) \<notin> set (map fst result)"
      unfolding Suc.prems(3) by auto
    then have "map fst ?r = map fst result @ [Some a]"
      using True by (simp add: keys_push_group key)
    with True show ?thesis unfolding Suc.prems(3) by (simp add: min_def)
  next
    case False
    then have "Some (a mod n) \<in> set (map fst result)"
      unfolding Suc.prems(3) using Suc.prems(1) by (auto simp: min_def)
    then have "map fst ?r = map fst result"
      by (simp add: keys_push_group key)
    with False show ?thesis unfolding Suc.prems(3) by (simp add: min_def)
  qed
  have "map fst (groupBy_reduce (\<lambda>x i. group_key n i) [a + 1..<b] (a + 1) ?r)
          = map Some [0..<min b n]"
    using Suc.hyps(1) [of "a + 1" ?r] Suc.hyps(2) Suc.prems(1) lt keys by simp
  then show ?case unfolding up by simp
qed

lemma pairs_from_keys:
  "distinct (map fst xs) \<Longrightarrow> xs = map (\<lambda>k. (k, the (map_of xs k))) (map fst xs)"
proof (induction xs)
  case Nil
  then show ?case by simp
next
  case (Cons x xs)
  obtain k v where x: "x = (k, v)" by (cases x)
  from Cons.prems x have nk: "k \<notin> set (map fst xs)" and d: "distinct (map fst xs)" by simp_all
  have "map (\<lambda>k'. (k', the (map_of ((k, v) # xs) k'))) (map fst xs)
          = map (\<lambda>k'. (k', the (map_of xs k'))) (map fst xs)"
    using nk by (intro map_cong) auto
  with Cons.IH [OF d] x show ?case by simp
qed

lemma groupBy_round_robin:
  assumes "0 < n"
  shows "groupBy [0..<m] (\<lambda>posting i. group_key n i)
           = map (\<lambda>k. (Some k, filter (\<lambda>i. i mod n = k) [0..<m])) [0..<min n m]"
proof -
  let ?gs = "groupBy [0..<m] (\<lambda>posting i. group_key n i)"
  have d: "distinct (map fst ?gs)"
    by (simp add: groupBy_def distinct_keys_groupBy_reduce)
  have "map fst ?gs = map Some [0..<min m n]"
    using keys_groupBy_round_robin [OF assms, of 0 m "[]"] by (simp add: groupBy_def)
  then have keys: "map fst ?gs = map Some [0..<min n m]"
    by (simp only: min.commute [of m n])
  have mo: "map_of ?gs k = (if filter (\<lambda>i. group_key n i = k) [0..<m] = [] then None
                             else Some (filter (\<lambda>i. group_key n i = k) [0..<m]))" for k
    unfolding groupBy_def map_of_groupBy_reduce members_upt by simp
  have val: "the (map_of ?gs (Some k)) = filter (\<lambda>i. i mod n = k) [0..<m]" if "k < min n m" for k
  proof -
    have f: "filter (\<lambda>i. group_key n i = Some k) [0..<m] = filter (\<lambda>i. i mod n = k) [0..<m]"
      using assms by (simp add: group_key_def)
    from that have "k \<in> set [0..<m] \<and> k mod n = k" by simp
    then have "filter (\<lambda>i. i mod n = k) [0..<m] \<noteq> []"
      unfolding filter_empty_conv by blast
    with mo [of "Some k"] f show ?thesis by simp
  qed
  have "?gs = map (\<lambda>k. (k, the (map_of ?gs k))) (map fst ?gs)"
    by (rule pairs_from_keys [OF d])
  also have "\<dots> = map (\<lambda>k. (k, the (map_of ?gs k))) (map Some [0..<min n m])"
    by (simp only: keys)
  also have "\<dots> = map (\<lambda>k. (Some k, the (map_of ?gs (Some k)))) [0..<min n m]"
    unfolding map_map comp_def ..
  also have "\<dots> = map (\<lambda>k. (Some k, filter (\<lambda>i. i mod n = k) [0..<m])) [0..<min n m]"
    using val by (intro map_cong) auto
  finally show ?thesis .
qed

lemma addCompanyData_sessions:
  assumes "pool \<noteq> []"
  shows "snd (snd (addCompanyData tools envs pool batch))
     = map (\<lambda>k. map (\<lambda>r. (Some (browser (pool ! k)), detail_url (batch ! r)))
                   (filter (\<lambda>i. i mod length pool = k) [0..<length batch]))
         [0..<min (length pool) (length batch)]"
proof -
  from assms have n: "0 < length pool" by simp
  have ca: "map_option browser (crawler_at pool (Some k)) = Some (browser (pool ! k))"
    if "k < min (length pool) (length batch)" for k
    using that by (simp add: crawler_at_def)
  have "snd (snd (addCompanyData tools envs pool batch))
     = map (\<lambda>(k, refs). map (\<lambda>r. (map_option browser (crawler_at pool k),
                                    detail_url (batch ! r))) refs)
         (map (\<lambda>k. (Some k, filter (\<lambda>i. i mod length pool = k) [0..<length batch]))
            [0..<min (length pool) (length batch)])"
    using addCompanyData_visits [of tools envs pool batch] groupBy_round_robin [OF n, of "length batch"]
    by simp
  also have "\<dots> = map (\<lambda>k. map (\<lambda>r. (Some (browser (pool ! k)), detail_url (batch ! r)))
                   (filter (\<lambda>i. i mod length pool = k) [0..<length batch]))
         [0..<min (length pool) (length batch)]"
    using ca by (simp add: comp_def)
  finally show ?thesis .
qed

text \<open>
  C4. A batch of ten postings over a pool of three sessions is split into the partitions
  \<open>{0,3,6,9}\<close>, \<open>{1,4,7}\<close>, \<open>{2,5,8}\<close>, and in general the partition of a key holds exactly
  the positions with that remainder modulo the pool size, in order: over a pool that is
  not empty the partitions are those of the remainders \<open>0, 1, \<dots>\<close> that occur.
  \<^verbatim>\<open>addCompanyData\<close> works each partition on the session of the pool at the partition's
  key: the visits of the run are, partition by partition, the detail pages of the
  partition's postings in order, each on the browser of that session, and every session
  stays at its place in the pool. \<^verbatim>\<open>addCompanyData\<close> returns the whole batch whatever the
  detail pages answer: the posting at position \<open>j\<close> becomes what its own detail page makes
  of it; a posting whose navigation fails for good is left as it was (its detail fields
  stay \<^verbatim>\<open>null\<close>); and what becomes of a posting does not depend on the detail pages of
  the other postings.
\<close>

theorem addCompanyData_round_robin:
  assumes "j < length batch"
  shows "groupBy [0..<10] (\<lambda>posting i. group_key 3 i)
     = [(Some 0, [0, 3, 6, 9]), (Some 1, [1, 4, 7]), (Some 2, [2, 5, 8])]
   \<and> (((k, refs) \<in> set (groupBy [0..<length batch] (\<lambda>posting i. group_key (length pool) i)))
        = (refs = filter (\<lambda>i. group_key (length pool) i = k) [0..<length batch] \<and> refs \<noteq> []))
   \<and> (pool \<noteq> []
        \<longrightarrow> groupBy [0..<length batch] (\<lambda>posting i. group_key (length pool) i)
              = map (\<lambda>k. (Some k, filter (\<lambda>i. i mod length pool = k) [0..<length batch]))
                  [0..<min (length pool) (length batch)])
   \<and> snd (snd (addCompanyData tools envs pool batch))
        = map (\<lambda>(k, refs). map (\<lambda>r. (map_option browser (crawler_at pool k),
                                       detail_url (batch ! r))) refs)
            (groupBy [0..<length batch] (\<lambda>posting i. group_key (length pool) i))
   \<and> (pool \<noteq> []
        \<longrightarrow> snd (snd (addCompanyData tools envs pool batch))
              = map (\<lambda>k. map (\<lambda>r. (Some (browser (pool ! k)), detail_url (batch ! r)))
                            (filter (\<lambda>i. i mod length pool = k) [0..<length batch]))
                  [0..<min (length pool) (length batch)])
   \<and> map browser (fst (snd (addCompanyData tools envs pool batch))) = map browser pool
   \<and> length (fst (addCompanyData tools envs pool batch)) = length batch
   \<and> fst (addCompanyData tools envs pool batch) ! j
        = enriched tools (envs j) (pool \<noteq> []) (batch ! j)
   \<and> (navigation_fails (envs j) (pool \<noteq> []) (batch ! j)
          \<longrightarrow> fst (addCompanyData tools envs pool batch) ! j = batch ! j)
   \<and> (envs' j = envs j
          \<longrightarrow> fst (addCompanyData tools envs' pool batch) ! j
                = fst (addCompanyData tools envs pool batch) ! j)"
proof -
  have a: "groupBy [0..<10] (\<lambda>posting i. group_key 3 i)
     = [(Some 0, [0, 3, 6, 9]), (Some 1, [1, 4, 7]), (Some 2, [2, 5, 8])]"
    by code_simp
  have b: "((k, refs) \<in> set (groupBy [0..<length batch] (\<lambda>posting i. group_key (length pool) i)))
        = (refs = filter (\<lambda>i. group_key (length pool) i = k) [0..<length batch] \<and> refs \<noteq> [])"
    by (rule groupBy_positions)
  have g: "pool \<noteq> []
        \<longrightarrow> groupBy [0..<length batch] (\<lambda>posting i. group_key (length pool) i)
              = map (\<lambda>k. (Some k, filter (\<lambda>i. i mod length pool = k) [0..<length batch]))
                  [0..<min (length pool) (length batch)]"
    using groupBy_round_robin [of "length pool" "length batch"] by simp
  have v: "snd (snd (addCompanyData tools envs pool batch))
        = map (\<lambda>(k, refs). map (\<lambda>r. (map_option browser (crawler_at pool k),
                                       detail_url (batch ! r))) refs)
            (groupBy [0..<length batch] (\<lambda>posting i. group_key (length pool) i))"
    and p: "map browser (fst (snd (addCompanyData tools envs pool batch))) = map browser pool"
    using addCompanyData_visits [of tools envs pool batch] by blast+
  have s: "pool \<noteq> []
        \<longrightarrow> snd (snd (addCompanyData tools envs pool batch))
              = map (\<lambda>k. map (\<lambda>r. (Some (browser (pool ! k)), detail_url (batch ! r)))
                            (filter (\<lambda>i. i mod length pool = k) [0..<length batch]))
                  [0..<min (length pool) (length batch)]"
    using addCompanyData_sessions [of pool tools envs batch] by blast
  have l: "length (fst (addCompanyData tools envs pool batch)) = length batch"
    using addCompanyData_nth [of tools envs pool batch] by simp
  have n: "fst (addCompanyData tools envs pool batch) ! j
        = enriched tools (envs j) (pool \<noteq> []) (batch ! j)"
    using addCompanyData_nth [of tools envs pool batch] assms by simp
  have n': "fst (addCompanyData tools envs' pool batch) ! j
        = enriched tools (envs' j) (pool \<noteq> []) (batch ! j)"
    using addCompanyData_nth [of tools envs' pool batch] assms by simp
  have c: "navigation_fails (envs j) (pool \<noteq> []) (batch ! j)
          \<longrightarrow> fst (addCompanyData tools envs pool batch) ! j = batch ! j"
    unfolding n by (simp add: enriched_cases)
  have d: "envs' j = envs j
          \<longrightarrow> fst (addCompanyData tools envs' pool batch) ! j
                = fst (addCompanyData tools envs pool batch) ! j"
    unfolding n n' by simp
  show ?thesis by (intro conjI a b g v s p l n c d)
qed

theorem addCompanyData_round_robin_witness:
  "(4::nat) < length batch10
   \<and> pool3 \<noteq> []
   \<and> snd (snd (addCompanyData no_tools pages_fail4 pool3 batch10))
       = [[(Some 0, ''https://www.arbeitsagentur.de/jobsuche/jobdetail/0''),
           (Some 0, ''https://www.arbeitsagentur.de/jobsuche/jobdetail/3''),
           (Some 0, ''https://www.arbeitsagentur.de/jobsuche/jobdetail/6''),
           (Some 0, ''https://www.arbeitsagentur.de/jobsuche/jobdetail/9'')],
          [(Some 1, ''https://www.arbeitsagentur.de/jobsuche/jobdetail/1''),
           (Some 1, ''https://www.arbeitsagentur.de/jobsuche/jobdetail/4''),
           (Some 1, ''https://www.arbeitsagentur.de/jobsuche/jobdetail/7'')],
          [(Some 2, ''https://www.arbeitsagentur.de/jobsuche/jobdetail/2''),
           (Some 2, ''https://www.arbeitsagentur.de/jobsuche/jobdetail/5''),
           (Some 2, ''https://www.arbeitsagentur.de/jobsuche/jobdetail/8'')]]
   \<and> map browser (fst (snd (addCompanyData no_tools pages_fail4 pool3 batch10))) = [0, 1, 2]
   \<and> navigation_fails (pages_fail4 4) (pool3 \<noteq> []) (batch10 ! 4)
   \<and> fst (addCompanyData no_tools pages_fail4 pool3 batch10) ! 4 = batch10 ! 4
   \<and> details_null (batch10 ! 4)
   \<and> (7::nat) < length batch10
   \<and> (\<lambda>j. page_fine) 7 = pages_fail4 7
   \<and> fst (addCompanyData no_tools (\<lambda>j. page_fine) pool3 batch10) ! 7
       = fst (addCompanyData no_tools pages_fail4 pool3 batch10) ! 7
   \<and> fst (addCompanyData no_tools pages_fail4 pool3 batch10) ! 7
       = (listed 7)\<lparr>postal_code := Some (Num 12345), street := Some ''Musterstr. 1''\<rparr>
   \<and> length (fst (addCompanyData no_tools pages_fail4 pool3 batch10)) = 10"
proof -
  have l: "length batch10 = 10" by (simp add: batch10_def)
  have l4: "(4::nat) < length batch10" and l7: "(7::nat) < length batch10"
    by (simp_all add: l)
  have pn: "pool3 \<noteq> []" by (simp add: pool3_def)
  have f: "navigation_fails (pages_fail4 4) (pool3 \<noteq> []) (batch10 ! 4)" by code_simp
  have n: "details_null (batch10 ! 4)" by code_simp
  have p: "(\<lambda>j. page_fine) 7 = pages_fail4 7" by (simp add: pages_fail4_def)
  have e: "enriched no_tools (pages_fail4 7) (pool3 \<noteq> []) (batch10 ! 7)
             = (listed 7)\<lparr>postal_code := Some (Num 12345), street := Some ''Musterstr. 1''\<rparr>"
    by code_simp
  have vs: "map (\<lambda>k. map (\<lambda>r. (Some (browser (pool3 ! k)), detail_url (batch10 ! r)))
                            (filter (\<lambda>i. i mod length pool3 = k) [0..<length batch10]))
                  [0..<min (length pool3) (length batch10)]
       = [[(Some 0, ''https://www.arbeitsagentur.de/jobsuche/jobdetail/0''),
           (Some 0, ''https://www.arbeitsagentur.de/jobsuche/jobdetail/3''),
           (Some 0, ''https://www.arbeitsagentur.de/jobsuche/jobdetail/6''),
           (Some 0, ''https://www.arbeitsagentur.de/jobsuche/jobdetail/9'')],
          [(Some 1, ''https://www.arbeitsagentur.de/jobsuche/jobdetail/1''),
           (Some 1, ''https://www.arbeitsagentur.de/jobsuche/jobdetail/4''),
           (Some 1, ''https://www.arbeitsagentur.de/jobsuche/jobdetail/7'')],
          [(Some 2, ''https://www.arbeitsagentur.de/jobsuche/jobdetail/2''),
           (Some 2, ''https://www.arbeitsagentur.de/jobsuche/jobdetail/5''),
           (Some 2, ''https://www.arbeitsagentur.de/jobsuche/jobdetail/8'')]]"
    by code_simp
  have bs: "map browser pool3 = [0, 1, 2]" by (simp add: pool3_def)
  note t4 = addCompanyData_round_robin [OF l4, of "Some 1" "[1, 4, 7]" pool3 no_tools pages_fail4 pages_fail4]
  note t7 = addCompanyData_round_robin [OF l7, of "Some 1" "[1, 4, 7]" pool3 no_tools pages_fail4 "\<lambda>j. page_fine"]
  have "snd (snd (addCompanyData no_tools pages_fail4 pool3 batch10))
       = map (\<lambda>k. map (\<lambda>r. (Some (browser (pool3 ! k)), detail_url (batch10 ! r)))
                            (filter (\<lambda>i. i mod length pool3 = k) [0..<length batch10]))
                  [0..<min (length pool3) (length batch10)]"
    using t4 pn by blast
  also note vs
  finally have rv: "snd (snd (addCompanyData no_tools pages_fail4 pool3 batch10))
       = [[(Some 0, ''https://www.arbeitsagentur.de/jobsuche/jobdetail/0''),
           (Some 0, ''https://www.arbeitsagentur.de/jobsuche/jobdetail/3''),
           (Some 0, ''https://www.arbeitsagentur.de/jobsuche/jobdetail/6''),
           (Some 0, ''https://www.arbeitsagentur.de/jobsuche/jobdetail/9'')],
          [(Some 1, ''https://www.arbeitsagentur.de/jobsuche/jobdetail/1''),
           (Some 1, ''https://www.arbeitsagentur.de/jobsuche/jobdetail/4''),
           (Some 1, ''https://www.arbeitsagentur.de/jobsuche/jobdetail/7'')],
          [(Some 2, ''https://www.arbeitsagentur.de/jobsuche/jobdetail/2''),
           (Some 2, ''https://www.arbeitsagentur.de/jobsuche/jobdetail/5''),
           (Some 2, ''https://www.arbeitsagentur.de/jobsuche/jobdetail/8'')]]" .
  have "map browser (fst (snd (addCompanyData no_tools pages_fail4 pool3 batch10)))
          = map browser pool3"
    using t4 by blast
  also note bs
  finally have rb: "map browser (fst (snd (addCompanyData no_tools pages_fail4 pool3 batch10)))
          = [0, 1, 2]" .
  have r4: "fst (addCompanyData no_tools pages_fail4 pool3 batch10) ! 4 = batch10 ! 4"
    using t4 f by blast
  have r7: "fst (addCompanyData no_tools (\<lambda>j. page_fine) pool3 batch10) ! 7
       = fst (addCompanyData no_tools pages_fail4 pool3 batch10) ! 7"
    using t7 p by blast
  have v7: "fst (addCompanyData no_tools pages_fail4 pool3 batch10) ! 7
       = (listed 7)\<lparr>postal_code := Some (Num 12345), street := Some ''Musterstr. 1''\<rparr>"
    using t7 e by simp
  have len: "length (fst (addCompanyData no_tools pages_fail4 pool3 batch10)) = 10"
    using t4 l by simp
  show ?thesis by (intro conjI l4 pn rv rb f r4 n l7 p r7 v7 len)
qed

text \<open>
  C5. A failure while one posting is enriched (its navigation fails for good, or one of
  the reads of its detail page throws) stays with that posting: the worker's step
  returns the posting unchanged and goes on, so \<^verbatim>\<open>addCompanyData\<close> returns the whole
  batch, a posting whose enrichment failed is exactly as it was (its six enrichment-only
  fields still \<^verbatim>\<open>null\<close>), and every other posting has its fields filled from its own
  detail page.
\<close>

theorem enrichment_failure_isolated:
  assumes "j < length batch"
  shows "(enrichment_fails e (w_crawler w \<noteq> None) p \<longrightarrow> fst (enrich_posting tools e w p) = p)
   \<and> length (fst (addCompanyData tools envs pool batch)) = length batch
   \<and> (if enrichment_fails (envs j) (pool \<noteq> []) (batch ! j)
       then fst (addCompanyData tools envs pool batch) ! j = batch ! j
            \<and> (details_null (batch ! j)
                 \<longrightarrow> details_null (fst (addCompanyData tools envs pool batch) ! j))
       else (\<exists>d. read_details (envs j) = Inr d
               \<and> fst (addCompanyData tools envs pool batch) ! j
                   = fill_details tools (batch ! j) d))"
proof -
  have a: "enrichment_fails e (w_crawler w \<noteq> None) p \<longrightarrow> fst (enrich_posting tools e w p) = p"
    using enriched_failure [of e "w_crawler w \<noteq> None" p tools]
    unfolding enrich_posting_enriched by blast
  have l: "length (fst (addCompanyData tools envs pool batch)) = length batch"
    using addCompanyData_nth [of tools envs pool batch] by simp
  have r: "fst (addCompanyData tools envs pool batch) ! j
             = enriched tools (envs j) (pool \<noteq> []) (batch ! j)"
    using addCompanyData_nth [of tools envs pool batch] assms by simp
  have c: "if enrichment_fails (envs j) (pool \<noteq> []) (batch ! j)
       then fst (addCompanyData tools envs pool batch) ! j = batch ! j
            \<and> (details_null (batch ! j)
                 \<longrightarrow> details_null (fst (addCompanyData tools envs pool batch) ! j))
       else (\<exists>d. read_details (envs j) = Inr d
               \<and> fst (addCompanyData tools envs pool batch) ! j
                   = fill_details tools (batch ! j) d)"
  proof (cases "enrichment_fails (envs j) (pool \<noteq> []) (batch ! j)")
    case True
    with enriched_failure [OF True, of tools] r show ?thesis by simp
  next
    case False
    with enriched_success [OF False, of tools] r show ?thesis by simp
  qed
  show ?thesis by (intro conjI a l c)
qed

theorem enrichment_failure_isolated_witness:
  "enrichment_fails page_broken (w_crawler (pristine True) \<noteq> None) (listed 1)
   \<and> fst (enrich_posting no_tools page_broken (pristine True) (listed 1)) = listed 1
   \<and> (1::nat) < length batch10
   \<and> enrichment_fails (pages_mixed 1) (pool3 \<noteq> []) (batch10 ! 1)
   \<and> \<not> navigation_fails (pages_mixed 1) (pool3 \<noteq> []) (batch10 ! 1)
   \<and> details_null (batch10 ! 1)
   \<and> details_null (fst (addCompanyData no_tools pages_mixed pool3 batch10) ! 1)
   \<and> (2::nat) < length batch10
   \<and> \<not> enrichment_fails (pages_mixed 2) (pool3 \<noteq> []) (batch10 ! 2)
   \<and> fst (addCompanyData no_tools pages_mixed pool3 batch10) ! 2
       = (listed 2)\<lparr>postal_code := Some (Num 12345), street := Some ''Musterstr. 1''\<rparr>"
proof -
  have l: "length batch10 = 10" by (simp add: batch10_def)
  have l1: "(1::nat) < length batch10" and l2: "(2::nat) < length batch10"
    by (simp_all add: l)
  have a: "enrichment_fails page_broken (w_crawler (pristine True) \<noteq> None) (listed 1)"
    by code_simp
  have b: "enrichment_fails (pages_mixed 1) (pool3 \<noteq> []) (batch10 ! 1)" by code_simp
  have b': "\<not> navigation_fails (pages_mixed 1) (pool3 \<noteq> []) (batch10 ! 1)" by code_simp
  have c: "details_null (batch10 ! 1)" by code_simp
  have d: "\<not> enrichment_fails (pages_mixed 2) (pool3 \<noteq> []) (batch10 ! 2)" by code_simp
  have e: "read_details (pages_mixed 2) = Inr (Some ''Musterstr. 1, 12345 Berlin'', None, None, None)"
    by code_simp
  have f: "fill_details no_tools (batch10 ! 2) (Some ''Musterstr. 1, 12345 Berlin'', None, None, None)
             = (listed 2)\<lparr>postal_code := Some (Num 12345), street := Some ''Musterstr. 1''\<rparr>"
    by code_simp
  note t1 = enrichment_failure_isolated
              [OF l1, of page_broken "pristine True" "listed 1" no_tools pages_mixed pool3]
  note t2 = enrichment_failure_isolated
              [OF l2, of page_broken "pristine True" "listed 1" no_tools pages_mixed pool3]
  have r0: "fst (enrich_posting no_tools page_broken (pristine True) (listed 1)) = listed 1"
    using t1 a by blast
  have r1: "details_null (fst (addCompanyData no_tools pages_mixed pool3 batch10) ! 1)"
    using t1 b c by simp
  from t2 d obtain dd where dd: "read_details (pages_mixed 2) = Inr dd"
      "fst (addCompanyData no_tools pages_mixed pool3 batch10) ! 2
         = fill_details no_tools (batch10 ! 2) dd"
    by auto
  have r2: "fst (addCompanyData no_tools pages_mixed pool3 batch10) ! 2
       = (listed 2)\<lparr>postal_code := Some (Num 12345), street := Some ''Musterstr. 1''\<rparr>"
    using dd e f by simp
  show ?thesis by (intro conjI a r0 l1 b b' c r1 l2 d r2)
qed

lemma window5_Cons: "window5 (c # cs) (Suc k) = window5 cs k"
  by (auto simp: window5_def)

lemma window5_0: "window5 t 0 = (5 \<le> length t \<and> list_all is_digit (take 5 t))"
  by (simp add: window5_def)

lemma match_digits5_first:
  "(match_digits5 t = None \<longrightarrow> (\<forall>k. \<not> window5 t k))
   \<and> (\<forall>m. match_digits5 t = Some m \<longrightarrow>
         (\<exists>k. window5 t k \<and> (\<forall>k'<k. \<not> window5 t k') \<and> m = take 5 (drop k t)))"
proof (induction t)
  case Nil
  then show ?case by (simp add: window5_def)
next
  case (Cons c cs)
  show ?case
  proof (cases "window5 (c # cs) 0")
    case True
    then have "match_digits5 (c # cs) = Some (take 5 (c # cs))" by (simp add: window5_0)
    with True show ?thesis by auto
  next
    case False
    then have m: "match_digits5 (c # cs) = match_digits5 cs" by (auto simp: window5_0)
    have none: "match_digits5 cs = None \<Longrightarrow> \<not> window5 (c # cs) k" for k
      using Cons False by (cases k) (simp_all add: window5_Cons)
    have some: "\<exists>k. window5 (c # cs) k \<and> (\<forall>k'<k. \<not> window5 (c # cs) k') \<and> m' = take 5 (drop k (c # cs))"
      if "match_digits5 cs = Some m'" for m'
    proof -
      from Cons that obtain k where k: "window5 cs k" "\<forall>k'<k. \<not> window5 cs k'" "m' = take 5 (drop k cs)"
        by blast
      have "\<not> window5 (c # cs) k'" if "k' < Suc k" for k'
        using that False k(2) by (cases k') (simp_all add: window5_Cons)
      with k show ?thesis by (intro exI [of _ "Suc k"]) (simp add: window5_Cons)
    qed
    show ?thesis unfolding m using none some by blast
  qed
qed

lemma parseInt10_decimal5:
  assumes "length m = 5" and "list_all is_digit m"
  shows "parseInt10 m = Num (decimal5 m)"
proof -
  from assms(1) obtain a b c d e where m: "m = [a, b, c, d, e]"
    by (auto simp: length_Suc_conv eval_nat_numeral)
  from assms(2) have tw: "takeWhile is_digit m = m" by (simp add: list_all_iff)
  from assms(2) m have "is_digit a" by simp
  then have ns: "\<not> is_space a" "a \<noteq> CHR ''-''" "a \<noteq> CHR ''+''"
    using digit_not_space digit_not_sign by auto
  then have dw: "dropWhile is_space m = m" by (simp add: m)
  show ?thesis
    unfolding parseInt10_def dw using ns tw by (simp add: Let_def m)
qed


lemma getPostalCode_None_iff:
  "(getPostalCodeFromAddress (Some t) = None) = list_all (\<lambda>k. \<not> window5 t k) [0..<length t]"
proof -
  have a: "(getPostalCodeFromAddress (Some t) = None) = (match_digits5 t = None)"
    by (simp add: getPostalCodeFromAddress_def split: option.splits)
  have b: "(match_digits5 t = None) = (\<forall>k. \<not> window5 t k)"
    using match_digits5_first [of t] by (cases "match_digits5 t") auto
  have c: "(\<forall>k. \<not> window5 t k) = list_all (\<lambda>k. \<not> window5 t k) [0..<length t]"
    by (auto simp: list_all_iff window5_def)
  show ?thesis using a b c by simp
qed

lemma getPostalCode_first_window:
  assumes "window5 t k" and "list_all (\<lambda>i. \<not> window5 t i) [0..<k]"
  shows "getPostalCodeFromAddress (Some t) = Some (Num (decimal5 (take 5 (drop k t))))"
proof -
  from assms(2) have before: "\<And>i. i < k \<Longrightarrow> \<not> window5 t i" by (simp add: list_all_iff)
  from assms(1) match_digits5_first [of t] obtain m where m: "match_digits5 t = Some m"
    by (cases "match_digits5 t") auto
  with match_digits5_first [of t] obtain k0
    where k0: "window5 t k0" "\<forall>i<k0. \<not> window5 t i" "m = take 5 (drop k0 t)" by blast
  have "k0 = k"
    using k0(1) k0(2) assms(1) before by (meson linorder_neqE_nat)
  with k0 have mk: "m = take 5 (drop k t)" by simp
  from assms(1) have "length m = 5" "list_all is_digit m"
    unfolding mk by (auto simp: window5_def)
  from parseInt10_decimal5 [OF this] m show ?thesis
    by (simp add: getPostalCodeFromAddress_def mk)
qed

lemma postal_code_fill_details:
  "postal_code (fill_details tools p (addr, b, l, s))
     = (case getPostalCodeFromAddress addr of
          Some n \<Rightarrow> Some n | None \<Rightarrow> getPostalCodeFromAddress b)"
  by (simp add: fill_details_def)

lemma read_details_Inr:
  "read_details e = Inr (addr, b, l, s) \<Longrightarrow> address_read e = Inr addr \<and> beschreibung_read e = Inr b"
  by (simp add: read_details_def split: sum.splits)

text \<open>
  C8, as the code has it: the five digits \<^verbatim>\<open>00000\<close> are a match of \<^verbatim>\<open>/\d{5}/\<close>, and
  \<^verbatim>\<open>parseInt\<close> of them is \<open>0\<close>, which is not a positive integer; a posting enriched
  from such an address has the postal code \<open>0\<close>.
\<close>

theorem postal_code_zero_counterexample:
  "getPostalCodeFromAddress (Some ''Postfach 00000'') = Some (Num 0)
   \<and> postal_code (fst (enrich_posting no_tools page_zero (pristine True) (listed 0)))
       = Some (Num 0)"
  by code_simp

text \<open>
  C8, amended. For every input text, \<^verbatim>\<open>getPostalCodeFromAddress\<close> returns either
  \<^verbatim>\<open>null\<close> or an integer from \<open>0\<close> to \<open>99999\<close>, and so does the \<open>postal_code\<close> field of
  every posting that \<^verbatim>\<open>addCompanyData\<close> returns, when it was so before. The result is
  \<^verbatim>\<open>null\<close> for \<^verbatim>\<open>null\<close> and for a text without five consecutive digits, and otherwise
  the number that the first five consecutive digits of the text write. A posting whose
  enrichment fails keeps its postal code; one whose enrichment does not fail gets the
  postal code of the address text, and that of the description when the address has
  none.
\<close>

theorem postal_code_range:
  assumes "j < length batch" and "postal_ok (postal_code (batch ! j))"
  shows "postal_ok (getPostalCodeFromAddress a)
   \<and> postal_ok (postal_code (fst (addCompanyData tools envs pool batch) ! j))
   \<and> getPostalCodeFromAddress None = None
   \<and> (getPostalCodeFromAddress (Some t) = None) = list_all (\<lambda>k. \<not> window5 t k) [0..<length t]
   \<and> (window5 t k \<and> list_all (\<lambda>i. \<not> window5 t i) [0..<k]
        \<longrightarrow> getPostalCodeFromAddress (Some t) = Some (Num (decimal5 (take 5 (drop k t)))))
   \<and> (enrichment_fails (envs j) (pool \<noteq> []) (batch ! j)
        \<longrightarrow> postal_code (fst (addCompanyData tools envs pool batch) ! j) = postal_code (batch ! j))
   \<and> (\<not> enrichment_fails (envs j) (pool \<noteq> []) (batch ! j)
        \<and> address_read (envs j) = Inr addr \<and> beschreibung_read (envs j) = Inr b
        \<longrightarrow> postal_code (fst (addCompanyData tools envs pool batch) ! j)
              = (case getPostalCodeFromAddress addr of
                   Some n \<Rightarrow> Some n | None \<Rightarrow> getPostalCodeFromAddress b))"
proof -
  have nth: "fst (addCompanyData tools envs pool batch) ! j
             = enriched tools (envs j) (pool \<noteq> []) (batch ! j)"
    using addCompanyData_nth [of tools envs pool batch] assms(1) by simp
  have c1: "postal_ok (getPostalCodeFromAddress a)" by (rule postal_ok_getPostalCode)
  have c2: "postal_ok (postal_code (fst (addCompanyData tools envs pool batch) ! j))"
    unfolding nth by (rule postal_ok_enriched [OF assms(2)])
  have c3: "getPostalCodeFromAddress None = None" by (simp add: getPostalCodeFromAddress_def)
  have c6: "enrichment_fails (envs j) (pool \<noteq> []) (batch ! j)
        \<longrightarrow> postal_code (fst (addCompanyData tools envs pool batch) ! j) = postal_code (batch ! j)"
    unfolding nth using enriched_failure [of "envs j" "pool \<noteq> []" "batch ! j" tools] by simp
  have c7: "\<not> enrichment_fails (envs j) (pool \<noteq> []) (batch ! j)
        \<and> address_read (envs j) = Inr addr \<and> beschreibung_read (envs j) = Inr b
        \<longrightarrow> postal_code (fst (addCompanyData tools envs pool batch) ! j)
              = (case getPostalCodeFromAddress addr of
                   Some n \<Rightarrow> Some n | None \<Rightarrow> getPostalCodeFromAddress b)"
  proof (intro impI, elim conjE)
    assume nf: "\<not> enrichment_fails (envs j) (pool \<noteq> []) (batch ! j)"
      and ar: "address_read (envs j) = Inr addr" and br: "beschreibung_read (envs j) = Inr b"
    from enriched_success [OF nf, of tools] obtain d where
      d: "read_details (envs j) = Inr d"
         "enriched tools (envs j) (pool \<noteq> []) (batch ! j) = fill_details tools (batch ! j) d"
      by blast
    obtain x y l s where xy: "d = (x, y, l, s)" by (cases d)
    from read_details_Inr [OF d(1) [unfolded xy]] ar br have "x = addr" "y = b" by simp_all
    then show "postal_code (fst (addCompanyData tools envs pool batch) ! j)
              = (case getPostalCodeFromAddress addr of
                   Some n \<Rightarrow> Some n | None \<Rightarrow> getPostalCodeFromAddress b)"
      unfolding nth d(2) xy by (simp only: postal_code_fill_details)
  qed
  have c5: "window5 t k \<and> list_all (\<lambda>i. \<not> window5 t i) [0..<k]
        \<longrightarrow> getPostalCodeFromAddress (Some t) = Some (Num (decimal5 (take 5 (drop k t))))"
    using getPostalCode_first_window [of t k] by blast
  show ?thesis by (intro conjI c1 c2 c3 getPostalCode_None_iff c5 c6 c7)
qed

theorem postal_code_range_witness:
  "(0::nat) < length batch10
   \<and> postal_ok (postal_code (batch10 ! 0))
   \<and> postal_ok (getPostalCodeFromAddress (Some ''Musterstr. 1, 12345 Berlin''))
   \<and> postal_ok (postal_code (fst (addCompanyData no_tools pages_fail4 pool3 batch10) ! 0))
   \<and> postal_ok (Some (Num 0)) \<and> postal_ok (Some (Num 99999))
   \<and> \<not> postal_ok (Some (Num 100000)) \<and> \<not> postal_ok (Some (Num (- 1))) \<and> \<not> postal_ok (Some NaN)
   \<and> window5 ''Tor 1234, 12345 Berlin 67890'' 10
   \<and> list_all (\<lambda>i. \<not> window5 ''Tor 1234, 12345 Berlin 67890'' i) [0..<10]
   \<and> take 5 (drop 10 ''Tor 1234, 12345 Berlin 67890'') = ''12345''
   \<and> decimal5 ''12345'' = 12345
   \<and> getPostalCodeFromAddress (Some ''Tor 1234, 12345 Berlin 67890'') = Some (Num 12345)
   \<and> \<not> enrichment_fails (pages_fail4 0) (pool3 \<noteq> []) (batch10 ! 0)
   \<and> address_read (pages_fail4 0) = Inr (Some ''Musterstr. 1, 12345 Berlin'')
   \<and> beschreibung_read (pages_fail4 0) = Inr None
   \<and> postal_code (fst (addCompanyData no_tools pages_fail4 pool3 batch10) ! 0) = Some (Num 12345)
   \<and> (4::nat) < length batch10
   \<and> enrichment_fails (pages_fail4 4) (pool3 \<noteq> []) (batch10 ! 4)
   \<and> postal_code (fst (addCompanyData no_tools pages_fail4 pool3 batch10) ! 4) = None"
proof -
  have l: "(0::nat) < length batch10" and l4: "(4::nat) < length batch10"
    by (simp_all add: batch10_def)
  have a: "postal_ok (postal_code (batch10 ! 0))" by code_simp
  have a4: "postal_ok (postal_code (batch10 ! 4))" by code_simp
  have b: "postal_ok (Some (Num 0)) \<and> postal_ok (Some (Num 99999))
   \<and> \<not> postal_ok (Some (Num 100000)) \<and> \<not> postal_ok (Some (Num (- 1))) \<and> \<not> postal_ok (Some NaN)"
    by (simp add: postal_ok_def)
  have w: "window5 ''Tor 1234, 12345 Berlin 67890'' 10" by code_simp
  have nw: "list_all (\<lambda>i. \<not> window5 ''Tor 1234, 12345 Berlin 67890'' i) [0..<10]" by code_simp
  have tk: "take 5 (drop 10 ''Tor 1234, 12345 Berlin 67890'') = ''12345''" by code_simp
  have dv: "decimal5 ''12345'' = 12345" by code_simp
  have pn: "pool3 \<noteq> []" by (simp add: pool3_def)
  have nf: "\<not> enrichment_fails (pages_fail4 0) (pool3 \<noteq> []) (batch10 ! 0)"
    unfolding eqTrueI [OF pn] by code_simp
  have ar: "address_read (pages_fail4 0) = Inr (Some ''Musterstr. 1, 12345 Berlin'')" by code_simp
  have br: "beschreibung_read (pages_fail4 0) = Inr None" by code_simp
  have ef: "enrichment_fails (pages_fail4 4) (pool3 \<noteq> []) (batch10 ! 4)"
    unfolding eqTrueI [OF pn] by code_simp
  have g: "getPostalCodeFromAddress (Some ''Musterstr. 1, 12345 Berlin'') = Some (Num 12345)"
    by code_simp
  have p4: "postal_code (batch10 ! 4) = None" by code_simp
  note t = postal_code_range
            [OF l a, of "Some ''Musterstr. 1, 12345 Berlin''" no_tools pages_fail4 pool3
               "''Tor 1234, 12345 Berlin 67890''" 10
               "Some ''Musterstr. 1, 12345 Berlin''" None]
  note t4 = postal_code_range
            [OF l4 a4, of None no_tools pages_fail4 pool3 "[]" 0 None None]
  have r1: "postal_ok (getPostalCodeFromAddress (Some ''Musterstr. 1, 12345 Berlin''))"
    using t by blast
  have r2: "postal_ok (postal_code (fst (addCompanyData no_tools pages_fail4 pool3 batch10) ! 0))"
    using t by blast
  have r3: "getPostalCodeFromAddress (Some ''Tor 1234, 12345 Berlin 67890'') = Some (Num 12345)"
    using t w nw tk dv by simp
  have r4: "postal_code (fst (addCompanyData no_tools pages_fail4 pool3 batch10) ! 0) = Some (Num 12345)"
    using t nf ar br g by simp
  have r5: "postal_code (fst (addCompanyData no_tools pages_fail4 pool3 batch10) ! 4) = None"
    using t4 ef p4 by simp
  show ?thesis by (intro conjI l a r1 r2 b [THEN conjunct1] b [THEN conjunct2, THEN conjunct1]
      b [THEN conjunct2, THEN conjunct2, THEN conjunct1]
      b [THEN conjunct2, THEN conjunct2, THEN conjunct2, THEN conjunct1]
      b [THEN conjunct2, THEN conjunct2, THEN conjunct2, THEN conjunct2]
      w nw tk dv r3 nf ar br r4 l4 ef r5)
qed

text \<open>
  C9. The address text \<^verbatim>\<open>"Musterstr. 1, 12345 Berlin"\<close> gives the postal code \<open>12345\<close> and
  the street \<^verbatim>\<open>"Musterstr. 1"\<close>, and a posting whose enrichment does not fail and whose
  detail page shows that address gets these two as its \<open>postal_code\<close> and \<open>street\<close>.
\<close>

theorem musterstrasse_round_trip:
  assumes "address_read e = Inr (Some ''Musterstr. 1, 12345 Berlin'')"
    and "\<not> enrichment_fails e hc p"
  shows "getPostalCodeFromAddress (Some ''Musterstr. 1, 12345 Berlin'') = Some (Num 12345)
   \<and> street_of (Some ''Musterstr. 1, 12345 Berlin'') = Some ''Musterstr. 1''
   \<and> postal_code (enriched tools e hc p) = Some (Num 12345)
   \<and> street (enriched tools e hc p) = Some ''Musterstr. 1''"
proof -
  have a: "getPostalCodeFromAddress (Some ''Musterstr. 1, 12345 Berlin'') = Some (Num 12345)"
    by code_simp
  have b: "street_of (Some ''Musterstr. 1, 12345 Berlin'') = Some ''Musterstr. 1''"
    by code_simp
  obtain d where d: "read_details e = Inr d" "enriched tools e hc p = fill_details tools p d"
    using enriched_success [OF assms(2), of tools] by blast
  obtain x y z u where xy: "d = (x, y, z, u)" by (cases d)
  from d(1) assms(1) xy have x: "x = Some ''Musterstr. 1, 12345 Berlin''"
    by (simp add: read_details_def split: sum.splits)
  have c: "postal_code (enriched tools e hc p) = Some (Num 12345)"
    unfolding d(2) xy x by (simp add: fill_details_def a)
  have s: "street (enriched tools e hc p) = Some ''Musterstr. 1''"
    unfolding d(2) xy x by (simp add: fill_details_def b)
  show ?thesis by (intro conjI a b c s)
qed

theorem musterstrasse_round_trip_witness:
  "address_read page_fine = Inr (Some ''Musterstr. 1, 12345 Berlin'')
   \<and> \<not> enrichment_fails page_fine True (listed 0)
   \<and> postal_code (enriched no_tools page_fine True (listed 0)) = Some (Num 12345)
   \<and> street (enriched no_tools page_fine True (listed 0)) = Some ''Musterstr. 1''"
proof -
  have a: "address_read page_fine = Inr (Some ''Musterstr. 1, 12345 Berlin'')" by code_simp
  have b: "\<not> enrichment_fails page_fine True (listed 0)" by code_simp
  note t = musterstrasse_round_trip [OF a b, of no_tools]
  show ?thesis using a b t by blast
qed

section \<open>Pagination\<close>

lemma backoff_run_all_fail:
  assumes st: "\<And>j. snd (fn (S j)) = S (Suc j)"
  shows "0 \<le> a \<Longrightarrow> a < n \<Longrightarrow> (\<forall>j. nat a \<le> j \<and> j < nat n \<longrightarrow> isl (fst (fn (S j)))) \<Longrightarrow>
     isl (fst (exponentialBackoff_loop fn n d a err (S (nat a))))
     \<and> fst (snd (exponentialBackoff_loop fn n d a err (S (nat a)))) = S (nat n)
     \<and> fn_calls (snd (snd (exponentialBackoff_loop fn n d a err (S (nat a))))) = nat (n - a)"
proof (induction "nat (n - a)" arbitrary: a err)
  case 0
  then show ?case by simp
next
  case (Suc m)
  note eq = exponentialBackoff_loop.simps [of fn n d a err "S (nat a)"]
  obtain r s' where f: "fn (S (nat a)) = (r, s')" by (cases "fn (S (nat a))")
  with st [of "nat a"] have s': "s' = S (Suc (nat a))" by simp
  from Suc.prems have "isl (fst (fn (S (nat a))))" by simp
  with f obtain e where r: "r = Inl e" by (cases r) auto
  show ?case
  proof (cases "a = n - 1")
    case True
    have "exponentialBackoff_loop fn n d a err (S (nat a)) = (Inl e, s', [FnCall])"
      unfolding eq using Suc.prems f r True by simp
    moreover have "Suc (nat a) = nat n" using True Suc.prems by simp
    ultimately show ?thesis using True s' by simp
  next
    case False
    have na: "nat (a + 1) = Suc (nat a)" using Suc.prems by simp
    have ih: "isl (fst (exponentialBackoff_loop fn n d (a + 1) e (S (nat (a + 1)))))
     \<and> fst (snd (exponentialBackoff_loop fn n d (a + 1) e (S (nat (a + 1))))) = S (nat n)
     \<and> fn_calls (snd (snd (exponentialBackoff_loop fn n d (a + 1) e (S (nat (a + 1)))))) = nat (n - (a + 1))"
      using Suc.hyps(1) [of "a + 1" e] Suc.hyps(2) Suc.prems False na by simp
    obtain r2 s2 evs where rec: "exponentialBackoff_loop fn n d (a + 1) e (S (Suc (nat a))) = (r2, s2, evs)"
      by (cases "exponentialBackoff_loop fn n d (a + 1) e (S (Suc (nat a)))")
    have "exponentialBackoff_loop fn n d a err (S (nat a))
            = (r2, s2, FnCall # Delay (d * 2 ^ nat a) # evs)"
      unfolding eq using Suc.prems f r False rec s' by simp
    with ih rec na Suc.prems show ?thesis by (simp add: Suc_nat_eq_nat_zadd1)
  qed
qed

lemma backoff_run_first_value:
  assumes st: "\<And>j. snd (fn (S j)) = S (Suc j)"
  shows "0 \<le> a \<Longrightarrow> nat a \<le> k \<Longrightarrow> k < nat n
     \<Longrightarrow> (\<forall>j. nat a \<le> j \<and> j < k \<longrightarrow> isl (fst (fn (S j)))) \<Longrightarrow> \<not> isl (fst (fn (S k))) \<Longrightarrow>
     fst (exponentialBackoff_loop fn n d a err (S (nat a))) = fst (fn (S k))
     \<and> fst (snd (exponentialBackoff_loop fn n d a err (S (nat a)))) = S (Suc k)
     \<and> fn_calls (snd (snd (exponentialBackoff_loop fn n d a err (S (nat a))))) = k - nat a + 1
     \<and> fn_calls (butlast (snd (snd (exponentialBackoff_loop fn n d a err (S (nat a)))))) = k - nat a"
proof (induction "k - nat a" arbitrary: a err)
  case 0
  then have ka: "k = nat a" by simp
  note eq = exponentialBackoff_loop.simps [of fn n d a err "S (nat a)"]
  obtain r s' where f: "fn (S (nat a)) = (r, s')" by (cases "fn (S (nat a))")
  with st [of "nat a"] have s': "s' = S (Suc (nat a))" by simp
  from "0.prems" ka f obtain v where r: "r = Inr v" by (cases r) auto
  have an: "a < n" using "0.prems" ka by linarith
  have "exponentialBackoff_loop fn n d a err (S (nat a)) = (Inr v, s', [FnCall])"
    unfolding eq using an f r by simp
  with ka f r s' show ?case by simp
next
  case (Suc m)
  then have lt: "nat a < k" by simp
  note eq = exponentialBackoff_loop.simps [of fn n d a err "S (nat a)"]
  obtain r s' where f: "fn (S (nat a)) = (r, s')" by (cases "fn (S (nat a))")
  with st [of "nat a"] have s': "s' = S (Suc (nat a))" by simp
  from Suc.prems lt have "isl (fst (fn (S (nat a))))" by simp
  with f obtain e where r: "r = Inl e" by (cases r) auto
  have an: "a < n" and nl: "a \<noteq> n - 1" using Suc.prems lt by linarith+
  have na: "nat (a + 1) = Suc (nat a)" using Suc.prems by simp
  have ih: "fst (exponentialBackoff_loop fn n d (a + 1) e (S (nat (a + 1)))) = fst (fn (S k))
     \<and> fst (snd (exponentialBackoff_loop fn n d (a + 1) e (S (nat (a + 1))))) = S (Suc k)
     \<and> fn_calls (snd (snd (exponentialBackoff_loop fn n d (a + 1) e (S (nat (a + 1)))))) = k - nat (a + 1) + 1
     \<and> fn_calls (butlast (snd (snd (exponentialBackoff_loop fn n d (a + 1) e (S (nat (a + 1))))))) = k - nat (a + 1)"
    using Suc.hyps(1) [of "a + 1" e] Suc.hyps(2) Suc.prems lt na by simp
  obtain r2 s2 evs where rec: "exponentialBackoff_loop fn n d (a + 1) e (S (Suc (nat a))) = (r2, s2, evs)"
    by (cases "exponentialBackoff_loop fn n d (a + 1) e (S (Suc (nat a)))")
  have ne: "evs \<noteq> []" using ih rec na by auto
  have "exponentialBackoff_loop fn n d a err (S (nat a))
          = (r2, s2, FnCall # Delay (d * 2 ^ nat a) # evs)"
    unfolding eq using an f r nl rec s' by simp
  with ih rec na lt ne show ?case by simp
qed

lemma click_and_poll_counts: "fst (snd (click_and_poll env i (k, u))) = k + 1"
  by (simp add: click_and_poll_def split: option.splits sum.splits prod.splits)

lemma click_and_poll_clean:
  "fst (click_and_poll env i (k, None)) \<noteq> Inr EndedSleeping"
  by (simp add: click_and_poll_def split: option.splits sum.splits prod.splits)

lemma click_and_poll_ended:
  "click_and_poll env i (k, Some e) = (Inr EndedSleeping, (k + 1, Some e))"
  by (simp add: click_and_poll_def)

lemma poll_settled: "fst (poll c later t) = Some (Inr r) \<Longrightarrow> snd (poll c later t) = None"
  by (induction c later t rule: poll.induct) (simp_all split: if_splits)

lemma poll_pending: "fst (poll c later t) = None \<Longrightarrow> snd (poll c later t) \<noteq> None"
  by (induction c later t rule: poll.induct) (simp_all split: if_splits)

lemma waitUntil_settled:
  "waitUntil c f later t = (Some (Inr r), u) \<Longrightarrow> u = None"
  using poll_settled [of c later t r]
  by (auto simp: waitUntil_def split: sum.splits if_splits)

lemma waitUntil_pending:
  "waitUntil c f later t = (None, u) \<Longrightarrow> u \<noteq> None"
  using poll_pending [of c later t]
  by (auto simp: waitUntil_def split: sum.splits if_splits)

lemma succeeds_clean: "attempt_succeeds env i k \<Longrightarrow> unhandled_after env i k = None"
  unfolding attempt_succeeds_def unhandled_after_def click_and_poll_def
  by (auto split: option.splits sum.splits prod.splits dest: waitUntil_settled)

lemma hangs_unhandled: "attempt_ends_process env i k \<Longrightarrow> unhandled_after env i k \<noteq> None"
  unfolding attempt_ends_process_def unhandled_after_def click_and_poll_def
  by (auto split: option.splits sum.splits prod.splits dest: waitUntil_pending)

lemma state_before_quiet:
  "(\<forall>j<k. rejects_quietly env i j) \<Longrightarrow> state_before env i k = (k, None)"
proof (induction k)
  case 0
  then show ?case by simp
next
  case (Suc k)
  then have sb: "state_before env i k = (k, None)" and q: "rejects_quietly env i k" by simp_all
  from q have "unhandled_after env i k = None" by (simp add: rejects_quietly_def)
  then have "snd (click_and_poll env i (k, None)) = (k + 1, None)"
    using click_and_poll_counts [of env i k None]
    by (simp add: unhandled_after_def prod_eq_iff)
  with sb show ?case by simp
qed

lemma state_before_next:
  assumes "\<forall>j<k. rejects_quietly env i j"
  shows "state_before env i (Suc k) = (k + 1, unhandled_after env i k)"
  using click_and_poll_counts [of env i k None]
  by (simp add: state_before_quiet [OF assms] unhandled_after_def prod_eq_iff)


lemma run_rejects:
  assumes "\<forall>j<k. rejects_quietly env i j" and "j < k"
  shows "isl (fst (click_and_poll env i (state_before env i j)))"
proof -
  from assms have "\<forall>j'<j. rejects_quietly env i j'" by simp
  from state_before_quiet [OF this] assms show ?thesis
    by (simp add: rejects_quietly_def attempt_rejects_def)
qed

lemma loadNextPage_exhausted:
  assumes "\<forall>j<4. rejects_quietly env i j" and "attempt_rejects env i 4"
  shows "fst (loadNextPage env i) = Some (Inr False)"
    and "fst (snd (loadNextPage env i)) = unhandled_after env i 4"
    and "fn_calls (snd (snd (loadNextPage env i))) = 5"
proof -
  let ?fn = "click_and_poll env i"
  have isl4: "isl (fst (?fn (state_before env i 4)))"
    using state_before_quiet [OF assms(1)] assms(2) by (simp add: attempt_rejects_def)
  have "\<forall>j. nat 0 \<le> j \<and> j < nat 5 \<longrightarrow> isl (fst (?fn (state_before env i j)))"
  proof (intro allI impI)
    fix j assume "nat 0 \<le> j \<and> j < nat 5"
    then have "j < 4 \<or> j = 4" by auto
    then show "isl (fst (?fn (state_before env i j)))"
      using run_rejects [OF assms(1)] isl4 by blast
  qed
  from backoff_run_all_fail [of ?fn "state_before env i" 0 5 5000 Undefined, OF _ _ _ this]
  have b: "isl (fst (exponentialBackoff ?fn 5 5000 (0, None)))"
    "fst (snd (exponentialBackoff ?fn 5 5000 (0, None))) = state_before env i 5"
    "fn_calls (snd (snd (exponentialBackoff ?fn 5 5000 (0, None)))) = 5"
    by (simp_all add: exponentialBackoff_def)
  have s5: "state_before env i 5 = (5, unhandled_after env i 4)"
    using state_before_next [OF assms(1)] by (simp add: eval_nat_numeral)
  obtain r k u evs where e: "exponentialBackoff ?fn 5 5000 (0, None) = (r, (k, u), evs)"
    by (cases "exponentialBackoff ?fn 5 5000 (0, None)") auto
  from b e obtain err where r: "r = Inl err" by (cases r) auto
  from b e s5 have u: "u = unhandled_after env i 4" and c: "fn_calls evs = 5" by simp_all
  show "fst (loadNextPage env i) = Some (Inr False)"
    and "fst (snd (loadNextPage env i)) = unhandled_after env i 4"
    and "fn_calls (snd (snd (loadNextPage env i))) = 5"
    unfolding loadNextPage_def e r using u c by simp_all
qed

lemma loadNextPage_value:
  assumes "k < 5" and "\<forall>j<k. rejects_quietly env i j"
    and "fst (click_and_poll env i (k, None)) = Inr v"
  shows "fst (exponentialBackoff (click_and_poll env i) 5 5000 (0, None)) = Inr v"
    and "fst (snd (exponentialBackoff (click_and_poll env i) 5 5000 (0, None)))
           = (k + 1, unhandled_after env i k)"
    and "fn_calls (snd (snd (exponentialBackoff (click_and_poll env i) 5 5000 (0, None)))) = k + 1"
proof -
  let ?fn = "click_and_poll env i"
  have f: "\<forall>j. nat 0 \<le> j \<and> j < k \<longrightarrow> isl (fst (?fn (state_before env i j)))"
    using run_rejects [OF assms(2)] by blast
  have sk: "state_before env i k = (k, None)" by (rule state_before_quiet [OF assms(2)])
  have v: "\<not> isl (fst (?fn (state_before env i k)))" using assms(3) sk by simp
  have k5: "k < nat 5" using assms(1) by simp
  from backoff_run_first_value [of ?fn "state_before env i" 0 k 5 5000 Undefined, OF _ _ _ k5 f v]
  show "fst (exponentialBackoff ?fn 5 5000 (0, None)) = Inr v"
    and "fst (snd (exponentialBackoff ?fn 5 5000 (0, None))) = (k + 1, unhandled_after env i k)"
    and "fn_calls (snd (snd (exponentialBackoff ?fn 5 5000 (0, None)))) = k + 1"
    using sk assms(3) state_before_next [OF assms(2)]
    by (simp_all add: exponentialBackoff_def)
qed

lemma loadNextPage_first_success:
  assumes "k < 5" and "\<forall>j<k. rejects_quietly env i j" and "attempt_succeeds env i k"
  shows "fst (loadNextPage env i) = Some (Inr True)"
    and "fst (snd (loadNextPage env i)) = None"
    and "fn_calls (snd (snd (loadNextPage env i))) = k + 1"
proof -
  let ?fn = "click_and_poll env i"
  from assms(3) have v: "fst (?fn (k, None)) = Inr RowShown" by (simp add: attempt_succeeds_def)
  note b = loadNextPage_value [OF assms(1) assms(2) v]
  obtain r k' u evs where e: "exponentialBackoff ?fn 5 5000 (0, None) = (r, (k', u), evs)"
    by (cases "exponentialBackoff ?fn 5 5000 (0, None)") auto
  from b e succeeds_clean [OF assms(3)]
  have "r = Inr RowShown" "u = None" "fn_calls evs = k + 1" by simp_all
  then show "fst (loadNextPage env i) = Some (Inr True)"
    and "fst (snd (loadNextPage env i)) = None"
    and "fn_calls (snd (snd (loadNextPage env i))) = k + 1"
    unfolding loadNextPage_def e by simp_all
qed

lemma loadNextPage_hangs:
  assumes "k < 5" and "\<forall>j<k. rejects_quietly env i j" and "attempt_ends_process env i k"
  shows "fst (loadNextPage env i) = None"
    and "fst (snd (loadNextPage env i)) = unhandled_after env i k"
proof -
  let ?fn = "click_and_poll env i"
  from assms(3) have v: "fst (?fn (k, None)) = Inr EndsPolling" by (simp add: attempt_ends_process_def)
  note b = loadNextPage_value [OF assms(1) assms(2) v]
  obtain r k' u evs where e: "exponentialBackoff ?fn 5 5000 (0, None) = (r, (k', u), evs)"
    by (cases "exponentialBackoff ?fn 5 5000 (0, None)") auto
  from b e have "r = Inr EndsPolling" "u = unhandled_after env i k" by simp_all
  then show "fst (loadNextPage env i) = None"
    and "fst (snd (loadNextPage env i)) = unhandled_after env i k"
    unfolding loadNextPage_def e by simp_all
qed

lemma loadNextPage_ended:
  assumes "k < 4" and "\<forall>j<k. rejects_quietly env i j" and "attempt_rejects env i k"
    and "unhandled_after env i k \<noteq> None"
  shows "fst (loadNextPage env i) = None"
    and "fst (snd (loadNextPage env i)) = unhandled_after env i k"
    and "fn_calls (snd (snd (loadNextPage env i))) = k + 1"
proof -
  let ?fn = "click_and_poll env i"
  from assms(4) obtain x where x: "unhandled_after env i k = Some x" by auto
  have sk: "state_before env i k = (k, None)" by (rule state_before_quiet [OF assms(2)])
  have sk1: "state_before env i (Suc k) = (k + 1, Some x)"
    using state_before_next [OF assms(2)] x by simp
  have f: "\<forall>j. nat 0 \<le> j \<and> j < Suc k \<longrightarrow> isl (fst (?fn (state_before env i j)))"
  proof (intro allI impI)
    fix j assume "nat 0 \<le> j \<and> j < Suc k"
    then have "j < k \<or> j = k" by auto
    then show "isl (fst (?fn (state_before env i j)))"
      using run_rejects [OF assms(2)] sk assms(3) by (auto simp: attempt_rejects_def)
  qed
  have v: "\<not> isl (fst (?fn (state_before env i (Suc k))))"
    unfolding sk1 by (simp add: click_and_poll_ended)
  have k5: "Suc k < nat 5" using assms(1) by simp
  from backoff_run_first_value [of ?fn "state_before env i" 0 "Suc k" 5 5000 Undefined, OF _ _ _ k5 f v]
  have b: "fst (exponentialBackoff ?fn 5 5000 (0, None)) = Inr EndedSleeping"
    "fst (snd (exponentialBackoff ?fn 5 5000 (0, None))) = (k + 2, Some x)"
    "fn_calls (butlast (snd (snd (exponentialBackoff ?fn 5 5000 (0, None))))) = k + 1"
    using sk1 by (simp_all add: exponentialBackoff_def click_and_poll_ended)
  obtain r k' u evs where e: "exponentialBackoff ?fn 5 5000 (0, None) = (r, (k', u), evs)"
    by (cases "exponentialBackoff ?fn 5 5000 (0, None)") auto
  from b e have "r = Inr EndedSleeping" "u = Some x" "fn_calls (butlast evs) = k + 1" by simp_all
  then show "fst (loadNextPage env i) = None"
    and "fst (snd (loadNextPage env i)) = unhandled_after env i k"
    and "fn_calls (snd (snd (loadNextPage env i))) = k + 1"
    unfolding loadNextPage_def e using x by simp_all
qed

lemma loadNextPage_never_raises: "fst (loadNextPage env i) \<noteq> Some (Inl e)"
proof -
  obtain r k u evs where e: "exponentialBackoff (click_and_poll env i) 5 5000 (0, None) = (r, (k, u), evs)"
    by (cases "exponentialBackoff (click_and_poll env i) 5 5000 (0, None)") auto
  show ?thesis unfolding loadNextPage_def e by (simp split: sum.splits attempt_end.splits)
qed


lemma attempt_classes:
  "attempt_succeeds env i k \<or> attempt_ends_process env i k \<or> attempt_rejects env i k"
proof (cases "fst (click_and_poll env i (k, None))")
  case (Inl e)
  then show ?thesis by (simp add: attempt_rejects_def)
next
  case (Inr v)
  with click_and_poll_clean [of env i k] show ?thesis
    by (cases v) (simp_all add: attempt_succeeds_def attempt_ends_process_def)
qed

lemma run_cases:
  obtains (exhausted) "\<forall>j<4. rejects_quietly env i j" "attempt_rejects env i 4"
  | (success) k where "k < 5" "\<forall>j<k. rejects_quietly env i j" "attempt_succeeds env i k"
  | (hangs) k where "k < 5" "\<forall>j<k. rejects_quietly env i j" "attempt_ends_process env i k"
  | (ended) k where "k < 4" "\<forall>j<k. rejects_quietly env i j" "attempt_rejects env i k"
      "unhandled_after env i k \<noteq> None"
proof (cases "\<forall>j<5. rejects_quietly env i j")
  case True
  then have "\<forall>j<4. rejects_quietly env i j" "attempt_rejects env i 4"
    by (simp_all add: rejects_quietly_def)
  then show thesis by (rule exhausted)
next
  case False
  then have "\<exists>m. m < 5 \<and> \<not> rejects_quietly env i m" by blast
  then obtain k where k: "k < 5 \<and> \<not> rejects_quietly env i k"
      "\<forall>j<k. \<not> (j < 5 \<and> \<not> rejects_quietly env i j)"
    using exists_least_iff [of "\<lambda>m. m < 5 \<and> \<not> rejects_quietly env i m"] by blast
  then have q: "\<forall>j<k. rejects_quietly env i j" by auto
  from attempt_classes [of env i k] show thesis
  proof (elim disjE)
    assume "attempt_succeeds env i k"
    with k q show thesis using success by blast
  next
    assume "attempt_ends_process env i k"
    with k q show thesis using hangs by blast
  next
    assume r: "attempt_rejects env i k"
    with k have u: "unhandled_after env i k \<noteq> None" by (simp add: rejects_quietly_def)
    show thesis
    proof (cases "k = 4")
      case True
      with q r show thesis using exhausted by blast
    next
      case False
      with k have "k < 4" by simp
      with q r u show thesis using ended by blast
    qed
  qed
qed

lemma loadNextPage_false_iff:
  "(fst (loadNextPage env i) = Some (Inr False))
     = ((\<forall>j<4. rejects_quietly env i j) \<and> attempt_rejects env i 4)"
proof
  assume "(\<forall>j<4. rejects_quietly env i j) \<and> attempt_rejects env i 4"
  then show "fst (loadNextPage env i) = Some (Inr False)"
    using loadNextPage_exhausted(1) [of env i] by blast
next
  assume f: "fst (loadNextPage env i) = Some (Inr False)"
  show "(\<forall>j<4. rejects_quietly env i j) \<and> attempt_rejects env i 4"
  proof (cases rule: run_cases [of env i])
    case exhausted
    then show ?thesis by blast
  next
    case (success k)
    from loadNextPage_first_success(1) [OF this] f show ?thesis by simp
  next
    case (hangs k)
    from loadNextPage_hangs(1) [OF this] f show ?thesis by simp
  next
    case (ended k)
    from loadNextPage_ended(1) [OF this] f show ?thesis by simp
  qed
qed

lemma loadNextPage_true_iff:
  "(fst (loadNextPage env i) = Some (Inr True))
     = (\<exists>k<5. (\<forall>j<k. rejects_quietly env i j) \<and> attempt_succeeds env i k)"
proof
  assume "\<exists>k<5. (\<forall>j<k. rejects_quietly env i j) \<and> attempt_succeeds env i k"
  then show "fst (loadNextPage env i) = Some (Inr True)"
    using loadNextPage_first_success(1) [of _ env i] by blast
next
  assume f: "fst (loadNextPage env i) = Some (Inr True)"
  show "\<exists>k<5. (\<forall>j<k. rejects_quietly env i j) \<and> attempt_succeeds env i k"
  proof (cases rule: run_cases [of env i])
    case exhausted
    from loadNextPage_exhausted(1) [OF this] f show ?thesis by simp
  next
    case (success k)
    then show ?thesis by blast
  next
    case (hangs k)
    from loadNextPage_hangs(1) [OF this] f show ?thesis by simp
  next
    case (ended k)
    from loadNextPage_ended(1) [OF this] f show ?thesis by simp
  qed
qed

lemma loadNextPage_none_iff:
  "(fst (loadNextPage env i) = None)
     = (\<exists>k<5. (\<forall>j<k. rejects_quietly env i j)
              \<and> (attempt_ends_process env i k
                   \<or> (k < 4 \<and> attempt_rejects env i k \<and> unhandled_after env i k \<noteq> None)))"
proof
  assume "\<exists>k<5. (\<forall>j<k. rejects_quietly env i j)
              \<and> (attempt_ends_process env i k
                   \<or> (k < 4 \<and> attempt_rejects env i k \<and> unhandled_after env i k \<noteq> None))"
  then show "fst (loadNextPage env i) = None"
    using loadNextPage_hangs(1) [of _ env i] loadNextPage_ended(1) [of _ env i] by blast
next
  assume f: "fst (loadNextPage env i) = None"
  show "\<exists>k<5. (\<forall>j<k. rejects_quietly env i j)
              \<and> (attempt_ends_process env i k
                   \<or> (k < 4 \<and> attempt_rejects env i k \<and> unhandled_after env i k \<noteq> None))"
  proof (cases rule: run_cases [of env i])
    case exhausted
    from loadNextPage_exhausted(1) [OF this] f show ?thesis by simp
  next
    case (success k)
    from loadNextPage_first_success(1) [OF this] f show ?thesis by simp
  next
    case (hangs k)
    then show ?thesis by blast
  next
    case (ended k)
    then have "k < 5" by simp
    with ended show ?thesis by blast
  qed
qed

lemma loadNextPage_none_unhandled:
  "fst (loadNextPage env i) = None \<Longrightarrow> fst (snd (loadNextPage env i)) \<noteq> None"
proof (cases rule: run_cases [of env i])
  case exhausted
  assume "fst (loadNextPage env i) = None"
  with loadNextPage_exhausted(1) [OF exhausted] show ?thesis by simp
next
  case (success k)
  assume "fst (loadNextPage env i) = None"
  with loadNextPage_first_success(1) [OF success] show ?thesis by simp
next
  case (hangs k)
  from loadNextPage_hangs(2) [OF this] hangs_unhandled [OF hangs(3)] show ?thesis by simp
next
  case (ended k)
  from loadNextPage_ended(2) [OF this] ended(4) show ?thesis by simp
qed

lemma list_all_below: "list_all P [0..<n] = (\<forall>j<n. P j)"
  by (auto simp: list_all_iff)

lemma list_ex_below: "list_ex P [0..<n] = (\<exists>j<n. P j)"
  by (auto simp: list_ex_iff)

lemma view_absent: "getTextWithId (listing 2) (entry_id 2 ''firma'') = Inr None"
  by code_simp

lemma view_shown:
  "getTextWithId (listing 3) (entry_id 2 ''firma'')
     = Inr (Some (''Arbeitgeber:'' @ [CHR 0x0A] @ ''Muster GmbH''))"
  by code_simp

lemma view_dead: "getTextWithId dead_page ident = Inl page_gone"
  by (simp add: getTextWithId_def dead_page_def)

lemmas attempt_eval =
  attempt_rejects_def attempt_succeeds_def attempt_ends_process_def unhandled_after_def
  rejects_quietly_def click_and_poll_def waitUntil_def truthy_def
  never_loads_def loads_third_time_def dies_polling_def dies_at_timeout_def
  view_absent view_shown view_dead

text \<open>
  C6. \<^verbatim>\<open>loadNextPage\<close> never raises. It returns \<open>false\<close> exactly when all five attempts
  are exhausted: the first four reject and leave no unhandled rejection, and the fifth
  rejects; it has then made five calls. When attempt \<open>k\<close> is the first to succeed, the
  attempts before it having rejected in that way, it returns \<open>true\<close> after \<open>k + 1\<close> calls,
  and these are the only runs in which it returns \<open>true\<close>. In every other run the process
  ends before \<^verbatim>\<open>loadNextPage\<close> returns, on an unhandled rejection: an evaluation of the
  condition throws inside the timer callback of the poll, while the poll is pending, or at
  the timeout of one of the first four attempts.
\<close>

theorem loadNextPage_false_iff_exhausted:
  "fst (loadNextPage env i) \<noteq> Some (Inl e)
   \<and> (fst (loadNextPage env i) = Some (Inr False))
       = (list_all (rejects_quietly env i) [0..<4] \<and> attempt_rejects env i 4)
   \<and> (list_all (rejects_quietly env i) [0..<4] \<and> attempt_rejects env i 4
        \<longrightarrow> fn_calls (snd (snd (loadNextPage env i))) = 5
            \<and> fst (snd (loadNextPage env i)) = unhandled_after env i 4)
   \<and> (k < 5 \<and> attempt_succeeds env i k \<and> list_all (rejects_quietly env i) [0..<k]
        \<longrightarrow> fst (loadNextPage env i) = Some (Inr True)
            \<and> fn_calls (snd (snd (loadNextPage env i))) = k + 1
            \<and> fst (snd (loadNextPage env i)) = None)
   \<and> (fst (loadNextPage env i) = Some (Inr True))
       = list_ex (\<lambda>k. list_all (rejects_quietly env i) [0..<k] \<and> attempt_succeeds env i k) [0..<5]
   \<and> (fst (loadNextPage env i) = None)
       = list_ex (\<lambda>k. list_all (rejects_quietly env i) [0..<k]
                      \<and> (attempt_ends_process env i k
                           \<or> (k < 4 \<and> attempt_rejects env i k \<and> unhandled_after env i k \<noteq> None)))
           [0..<5]
   \<and> (fst (loadNextPage env i) = None \<longrightarrow> fst (snd (loadNextPage env i)) \<noteq> None)"
proof -
  have a: "fst (loadNextPage env i) \<noteq> Some (Inl e)" by (rule loadNextPage_never_raises)
  have b: "(fst (loadNextPage env i) = Some (Inr False))
       = (list_all (rejects_quietly env i) [0..<4] \<and> attempt_rejects env i 4)"
    unfolding list_all_below by (rule loadNextPage_false_iff)
  have c: "list_all (rejects_quietly env i) [0..<4] \<and> attempt_rejects env i 4
        \<longrightarrow> fn_calls (snd (snd (loadNextPage env i))) = 5
            \<and> fst (snd (loadNextPage env i)) = unhandled_after env i 4"
    unfolding list_all_below
    using loadNextPage_exhausted(2) [of env i] loadNextPage_exhausted(3) [of env i] by blast
  have d: "k < 5 \<and> attempt_succeeds env i k \<and> list_all (rejects_quietly env i) [0..<k]
        \<longrightarrow> fst (loadNextPage env i) = Some (Inr True)
            \<and> fn_calls (snd (snd (loadNextPage env i))) = k + 1
            \<and> fst (snd (loadNextPage env i)) = None"
    unfolding list_all_below
    using loadNextPage_first_success [of k env i] by blast
  have t: "(fst (loadNextPage env i) = Some (Inr True))
       = list_ex (\<lambda>k. list_all (rejects_quietly env i) [0..<k] \<and> attempt_succeeds env i k) [0..<5]"
    unfolding list_all_below list_ex_below by (rule loadNextPage_true_iff)
  have n: "(fst (loadNextPage env i) = None)
       = list_ex (\<lambda>k. list_all (rejects_quietly env i) [0..<k]
                      \<and> (attempt_ends_process env i k
                           \<or> (k < 4 \<and> attempt_rejects env i k \<and> unhandled_after env i k \<noteq> None)))
           [0..<5]"
    unfolding list_all_below list_ex_below by (rule loadNextPage_none_iff)
  have u: "fst (loadNextPage env i) = None \<longrightarrow> fst (snd (loadNextPage env i)) \<noteq> None"
    using loadNextPage_none_unhandled [of env i] by blast
  show ?thesis by (intro conjI a b c d t n u)
qed

theorem loadNextPage_false_iff_exhausted_witness:
  "list_all (rejects_quietly never_loads 2) [0..<4] \<and> attempt_rejects never_loads 2 4
   \<and> fst (loadNextPage never_loads 2) = Some (Inr False)
   \<and> fn_calls (snd (snd (loadNextPage never_loads 2))) = 5
   \<and> fst (snd (loadNextPage never_loads 2)) = None
   \<and> (2::nat) < 5 \<and> attempt_succeeds loads_third_time 2 2
   \<and> list_all (rejects_quietly loads_third_time 2) [0..<2]
   \<and> fst (loadNextPage loads_third_time 2) = Some (Inr True)
   \<and> fn_calls (snd (snd (loadNextPage loads_third_time 2))) = 2 + 1
   \<and> list_all (rejects_quietly dies_polling 2) [0..<1]
   \<and> attempt_ends_process dies_polling 2 1
   \<and> fst (loadNextPage dies_polling 2) = None
   \<and> fst (snd (loadNextPage dies_polling 2)) \<noteq> None
   \<and> list_all (rejects_quietly (dies_at_timeout 4) 2) [0..<4]
   \<and> attempt_rejects (dies_at_timeout 4) 2 4
   \<and> unhandled_after (dies_at_timeout 4) 2 4 = Some page_gone
   \<and> fst (loadNextPage (dies_at_timeout 4) 2) = Some (Inr False)
   \<and> fst (snd (loadNextPage (dies_at_timeout 4) 2)) = Some page_gone
   \<and> list_all (rejects_quietly (dies_at_timeout 1) 2) [0..<1]
   \<and> (1::nat) < 4 \<and> attempt_rejects (dies_at_timeout 1) 2 1
   \<and> unhandled_after (dies_at_timeout 1) 2 1 \<noteq> None
   \<and> fst (loadNextPage (dies_at_timeout 1) 2) = None"
proof -
  have a: "list_all (rejects_quietly never_loads 2) [0..<4]"
    by (simp add: list_all_below attempt_eval)
  have a4: "attempt_rejects never_loads 2 4" by (simp add: attempt_eval)
  have au: "unhandled_after never_loads 2 4 = None" by (simp add: attempt_eval)
  have b: "attempt_succeeds loads_third_time 2 2" by (simp add: attempt_eval)
  have c: "list_all (rejects_quietly loads_third_time 2) [0..<2]"
    by (simp add: list_all_below attempt_eval)
  have l: "(2::nat) < 5" and l1: "(1::nat) < 4" by simp_all
  have d: "list_all (rejects_quietly dies_polling 2) [0..<1]"
    by (simp add: list_all_below attempt_eval)
  have d1: "attempt_ends_process dies_polling 2 1" by (simp add: attempt_eval)
  have f: "list_all (rejects_quietly (dies_at_timeout 4) 2) [0..<4]"
    by (simp add: list_all_below attempt_eval)
  have f4: "attempt_rejects (dies_at_timeout 4) 2 4" by (simp add: attempt_eval)
  have fu: "unhandled_after (dies_at_timeout 4) 2 4 = Some page_gone" by (simp add: attempt_eval)
  have g: "list_all (rejects_quietly (dies_at_timeout 1) 2) [0..<1]"
    by (simp add: list_all_below attempt_eval)
  have g1: "attempt_rejects (dies_at_timeout 1) 2 1" by (simp add: attempt_eval)
  have gu: "unhandled_after (dies_at_timeout 1) 2 1 \<noteq> None" by (simp add: attempt_eval)
  have dx: "list_ex (\<lambda>k. list_all (rejects_quietly dies_polling 2) [0..<k]
                      \<and> (attempt_ends_process dies_polling 2 k
                           \<or> (k < 4 \<and> attempt_rejects dies_polling 2 k
                                \<and> unhandled_after dies_polling 2 k \<noteq> None)))
           [0..<5]"
    unfolding list_ex_below using d d1 by (intro exI [of _ 1]) simp
  have gx: "list_ex (\<lambda>k. list_all (rejects_quietly (dies_at_timeout 1) 2) [0..<k]
                      \<and> (attempt_ends_process (dies_at_timeout 1) 2 k
                           \<or> (k < 4 \<and> attempt_rejects (dies_at_timeout 1) 2 k
                                \<and> unhandled_after (dies_at_timeout 1) 2 k \<noteq> None)))
           [0..<5]"
    unfolding list_ex_below using g g1 gu by (intro exI [of _ 1]) simp
  note t1 = loadNextPage_false_iff_exhausted [of never_loads 2 Undefined 0]
  note t2 = loadNextPage_false_iff_exhausted [of loads_third_time 2 Undefined 2]
  note t3 = loadNextPage_false_iff_exhausted [of dies_polling 2 Undefined 0]
  note t4 = loadNextPage_false_iff_exhausted [of "dies_at_timeout 4" 2 Undefined 0]
  note t5 = loadNextPage_false_iff_exhausted [of "dies_at_timeout 1" 2 Undefined 0]
  have r1: "fst (loadNextPage never_loads 2) = Some (Inr False)" using t1 a a4 by blast
  have r2: "fn_calls (snd (snd (loadNextPage never_loads 2))) = 5" using t1 a a4 by blast
  have r2u: "fst (snd (loadNextPage never_loads 2)) = None" using t1 a a4 au by simp
  have r3: "fst (loadNextPage loads_third_time 2) = Some (Inr True)"
    and r4: "fn_calls (snd (snd (loadNextPage loads_third_time 2))) = 2 + 1"
    using t2 l b c by blast+
  have r5: "fst (loadNextPage dies_polling 2) = None" using t3 dx by blast
  have r6: "fst (snd (loadNextPage dies_polling 2)) \<noteq> None" using t3 r5 by blast
  have r7: "fst (loadNextPage (dies_at_timeout 4) 2) = Some (Inr False)"
    using t4 f f4 by blast
  have r8: "fst (snd (loadNextPage (dies_at_timeout 4) 2)) = Some page_gone"
    using t4 f f4 fu by simp
  have r9: "fst (loadNextPage (dies_at_timeout 1) 2) = None" using t5 gx by blast
  show ?thesis
    by (intro conjI a a4 r1 r2 r2u l b c r3 r4 d d1 r5 r6 f f4 fu r7 r8 g l1 g1 gu r9)
qed

section \<open>Reading the rows of a listing\<close>

lemma find_filter_keep:
  "(\<forall>e\<in>set xs. P e \<longrightarrow> Q e) \<Longrightarrow> find P (filter Q xs) = find P xs"
  by (induction xs) auto

lemma find_filter_None: "find P xs = None \<Longrightarrow> find P (filter Q xs) = None"
  by (simp add: find_None_iff)

lemma list_all_filter: "list_all P xs \<Longrightarrow> list_all P (filter Q xs)"
  by (simp add: list_all_iff)

lemma read_absent_iff:
  "(fst (readArbeitsagenturPosting toISOString i ps) = Inr None)
     = (alive ps \<and> find (\<lambda>e. el_id e = entry_id i ''firma'') (dom ps) = None)"
proof (cases "alive ps")
  case False
  then show ?thesis by (simp add: readArbeitsagenturPosting_def getTextWithId_def)
next
  case True
  show ?thesis
  proof (cases "find (\<lambda>e. el_id e = entry_id i ''firma'') (dom ps)")
    case None
    with True show ?thesis by (simp add: readArbeitsagenturPosting_def getTextWithId_def)
  next
    case (Some f)
    have g: "getTextWithId ps (entry_id i ''firma'') = Inr (Some (innerText f))"
      using True Some by (simp add: getTextWithId_def)
    have "fst (readArbeitsagenturPosting toISOString i ps) \<noteq> Inr None"
      unfolding readArbeitsagenturPosting_def g
      by (simp split: sum.splits prod.splits)
    with True Some show ?thesis by simp
  qed
qed

lemma read_complete:
  assumes "alive ps" "row_complete toISOString ps i"
  shows "\<exists>p. readArbeitsagenturPosting toISOString i ps
           = (Inr (Some p), ps\<lparr>dom := filter (\<lambda>e. \<not> lies_under (outer_node ps i) e) (dom ps)\<rparr>)"
proof -
  from assms(2) obtain f where f: "find (\<lambda>e. el_id e = entry_id i ''firma'') (dom ps) = Some f"
    by (auto simp: row_complete_def)
  from assms(2) obtain loc where loc: "find (\<lambda>e. el_id e = entry_id i ''arbeitsort'') (dom ps) = Some loc"
    by (auto simp: row_complete_def)
  from assms(2) obtain l where l: "find_link ps i = Some l" "2 \<le> length (ancestors l)"
    by (auto simp: row_complete_def split: option.splits)
  define pd where "pd = map_option title (find (\<lambda>e. el_id e = entry_id i ''veroeffentlichungsdatum'') (dom ps))"
  define jn where "jn = map_option innerText (find (\<lambda>e. el_id e = entry_id i ''beruf'') (dom ps))"
  define sd where "sd = map_option innerText (find (\<lambda>e. el_id e = entry_id i ''eintrittsdatum'') (dom ps))"
  have g: "getTextWithId ps (entry_id i ''firma'') = Inr (Some (innerText f))"
    using assms(1) f by (simp add: getTextWithId_def)
  have rf: "read_fields i ps = Inr (jn, Some (innerText loc), sd, pd, l)"
    using assms(1) loc l(1)
    by (simp add: read_fields_def getTextWithId_def getTitleAttrWithId_def getLinkItem_def
          find_link_def jn_def sd_def pd_def)
  have on: "outer_node ps i = ancestors l ! 1" using l(1) by (simp add: outer_node_def)
  have del: "deleteOuterElement ps l 2
               = (Inr (), ps\<lparr>dom := filter (\<lambda>e. \<not> lies_under (outer_node ps i) e) (dom ps)\<rparr>)"
    using assms(1) l(2) by (simp add: deleteOuterElement_def on Let_def)
  have dt: "case cleanPostDate pd of None \<Rightarrow> True
            | Some t \<Rightarrow> if t = [] then True else \<not> isl (toISOString t)"
    using assms(2) by (simp add: row_complete_def pd_def)
  have "\<exists>p. build_posting toISOString (innerText f) jn (Some (innerText loc)) sd
               (cleanPostDate pd) (href l) = Inr p"
  proof (cases "cleanPostDate pd")
    case None
    then show ?thesis by (simp add: build_posting_def)
  next
    case (Some t)
    show ?thesis
    proof (cases "t = []")
      case True
      with Some show ?thesis by (simp add: build_posting_def)
    next
      case False
      with dt Some obtain v where "toISOString t = Inr v" by (cases "toISOString t") auto
      with Some False show ?thesis by (simp add: build_posting_def)
    qed
  qed
  then obtain p where bp: "build_posting toISOString (innerText f) jn (Some (innerText loc)) sd
               (cleanPostDate pd) (href l) = Inr p" by blast
  have "readArbeitsagenturPosting toISOString i ps
           = (Inr (Some p), ps\<lparr>dom := filter (\<lambda>e. \<not> lies_under (outer_node ps i) e) (dom ps)\<rparr>)"
    unfolding readArbeitsagenturPosting_def g by (simp add: rf del bp)
  then show ?thesis by blast
qed

lemma isolated_keeps:
  assumes "row_isolated ps n i" "j < n" "j \<noteq> i" "ident \<in> set (row_ids j)"
  shows "\<forall>e\<in>set (dom ps). el_id e = ident \<longrightarrow> \<not> lies_under (outer_node ps i) e"
proof (intro ballI impI notI)
  fix e assume e: "e \<in> set (dom ps)" "el_id e = ident" "lies_under (outer_node ps i) e"
  from assms(1) e(1) e(3)
  have "list_all (\<lambda>m. if m = i then True else el_id e \<notin> set (row_ids m)) [0..<n]"
    by (auto simp: row_isolated_def list_all_iff)
  with assms(2) assms(3) have "el_id e \<notin> set (row_ids j)"
    by (auto simp: list_all_iff)
  with e(2) assms(4) show False by simp
qed

lemma holds_rows_step:
  assumes h: "holds_rows toISOString i n ps" and lt: "i < n"
  shows "holds_rows toISOString (Suc i) n
           (ps\<lparr>dom := filter (\<lambda>e. \<not> lies_under (outer_node ps i) e) (dom ps)\<rparr>)"
proof -
  let ?Q = "\<lambda>e. \<not> lies_under (outer_node ps i) e"
  let ?ps = "ps\<lparr>dom := filter ?Q (dom ps)\<rparr>"
  from h lt have iso: "row_isolated ps n i" by (simp add: holds_rows_def list_all_iff)
  have keep: "\<And>j ident. j < n \<Longrightarrow> j \<noteq> i \<Longrightarrow> ident \<in> set (row_ids j) \<Longrightarrow>
      find (\<lambda>e. el_id e = ident) (dom ?ps) = find (\<lambda>e. el_id e = ident) (dom ps)"
    using isolated_keeps [OF iso] by (simp add: find_filter_keep)
  have keepl: "\<And>j. j < n \<Longrightarrow> j \<noteq> i \<Longrightarrow> find_link ?ps j = find_link ps j"
  proof -
    fix j assume j: "j < n" "j \<noteq> i"
    have "item_id j \<in> set (row_ids j)" by (simp add: row_ids_def)
    from isolated_keeps [OF iso j this]
    have "\<forall>e\<in>set (dom ps). el_tag e = ''a'' \<and> el_id e = item_id j \<longrightarrow> ?Q e" by blast
    then show "find_link ?ps j = find_link ps j"
      unfolding find_link_def using find_filter_keep [of "dom ps" "\<lambda>e. el_tag e = ''a'' \<and> el_id e = item_id j" ?Q]
      by simp
  qed
  have rows: "list_all (\<lambda>j. row_complete toISOString ?ps j \<and> row_isolated ?ps n j) [Suc i..<n]"
    unfolding list_all_iff
  proof
    fix j assume "j \<in> set [Suc i..<n]"
    then have j: "j < n" "j \<noteq> i" "i < j" by simp_all
    from h j have rc: "row_complete toISOString ps j" and ri: "row_isolated ps n j"
      by (simp_all add: holds_rows_def list_all_iff)
    have ids: "entry_id j ''firma'' \<in> set (row_ids j)" "entry_id j ''arbeitsort'' \<in> set (row_ids j)"
      "entry_id j ''veroeffentlichungsdatum'' \<in> set (row_ids j)"
      by (simp_all add: row_ids_def)
    have rc': "row_complete toISOString ?ps j"
      using rc keep [OF j(1) j(2) ids(1)] keep [OF j(1) j(2) ids(2)] keep [OF j(1) j(2) ids(3)]
            keepl [OF j(1) j(2)]
      unfolding row_complete_def by simp
    have on: "outer_node ?ps j = outer_node ps j"
      using keepl [OF j(1) j(2)] by (simp add: outer_node_def)
    have ri': "row_isolated ?ps n j"
      using ri list_all_filter [of _ "dom ps" ?Q] unfolding row_isolated_def on by simp
    from rc' ri' show "row_complete toISOString ?ps j \<and> row_isolated ?ps n j" by simp
  qed
  have none: "find (\<lambda>e. el_id e = entry_id n ''firma'') (dom ?ps) = None"
    using h by (simp add: holds_rows_def find_filter_None)
  from h rows none show ?thesis by (simp add: holds_rows_def)
qed

lemma read_rows_all:
  "holds_rows toISOString i n ps \<Longrightarrow> i + m = n \<Longrightarrow>
   list_all is_posting (fst (read_rows toISOString m i ps))
   \<and> length (fst (read_rows toISOString m i ps)) = m
   \<and> holds_rows toISOString n n (snd (read_rows toISOString m i ps))"
proof (induction m arbitrary: i ps)
  case 0
  then show ?case by simp
next
  case (Suc m)
  then have lt: "i < n" by simp
  from Suc.prems(1) lt have al: "alive ps" and rc: "row_complete toISOString ps i"
    by (simp_all add: holds_rows_def list_all_iff)
  let ?ps = "ps\<lparr>dom := filter (\<lambda>e. \<not> lies_under (outer_node ps i) e) (dom ps)\<rparr>"
  from read_complete [OF al rc] obtain p where
    r: "readArbeitsagenturPosting toISOString i ps = (Inr (Some p), ?ps)" by blast
  have h': "holds_rows toISOString (Suc i) n ?ps"
    by (rule holds_rows_step [OF Suc.prems(1) lt])
  have ih: "list_all is_posting (fst (read_rows toISOString m (Suc i) ?ps))
   \<and> length (fst (read_rows toISOString m (Suc i) ?ps)) = m
   \<and> holds_rows toISOString n n (snd (read_rows toISOString m (Suc i) ?ps))"
    using Suc.IH [OF h'] Suc.prems(2) by simp
  obtain rs ps'' where rr: "read_rows toISOString m (Suc i) ?ps = (rs, ps'')"
    by (cases "read_rows toISOString m (Suc i) ?ps")
  have e: "read_rows toISOString (Suc m) i ps = (Inr (Some p) # rs, ps'')"
    using r rr by simp
  have ip: "is_posting (Inr (Some p))" by (simp add: is_posting_def)
  show ?case unfolding e using ih rr ip by simp
qed

text \<open>
  C7. On a live listing page that holds the rows \<open>0, \<dots>, n - 1\<close> (each complete and in a
  container of its own) and no row \<open>n\<close>, reading the indices \<open>0, \<dots>, n - 1\<close> one after the
  other gives a posting each time, and reading index \<open>n\<close> after them gives the absent
  result without an error; so does reading any single index \<open>i < n\<close>, or the index \<open>n\<close>,
  on the page as it is. On every page, \<^verbatim>\<open>readArbeitsagenturPosting\<close> returns the absent
  result exactly when the page answers and the company-name element of the row is
  missing.
\<close>

theorem readArbeitsagenturPosting_rows:
  assumes "holds_rows toISOString 0 n ps"
  shows "list_all is_posting (fst (read_rows toISOString n 0 ps))
   \<and> length (fst (read_rows toISOString n 0 ps)) = n
   \<and> fst (readArbeitsagenturPosting toISOString n (snd (read_rows toISOString n 0 ps))) = Inr None
   \<and> (i < n \<longrightarrow> is_posting (fst (readArbeitsagenturPosting toISOString i ps)))
   \<and> fst (readArbeitsagenturPosting toISOString n ps) = Inr None
   \<and> (fst (readArbeitsagenturPosting toISOString' i' ps') = Inr None)
       = (alive ps' \<and> find (\<lambda>e. el_id e = entry_id i' ''firma'') (dom ps') = None)"
proof -
  note ra = read_rows_all [OF assms, of n]
  have a: "list_all is_posting (fst (read_rows toISOString n 0 ps))"
    and b: "length (fst (read_rows toISOString n 0 ps)) = n"
    and h: "holds_rows toISOString n n (snd (read_rows toISOString n 0 ps))"
    using ra by simp_all
  have c: "fst (readArbeitsagenturPosting toISOString n (snd (read_rows toISOString n 0 ps))) = Inr None"
    using h unfolding read_absent_iff by (simp add: holds_rows_def)
  have d: "i < n \<longrightarrow> is_posting (fst (readArbeitsagenturPosting toISOString i ps))"
  proof
    assume "i < n"
    with assms have "alive ps" "row_complete toISOString ps i"
      by (simp_all add: holds_rows_def list_all_iff)
    from read_complete [OF this] obtain p where
      "fst (readArbeitsagenturPosting toISOString i ps) = Inr (Some p)" by auto
    then show "is_posting (fst (readArbeitsagenturPosting toISOString i ps))"
      by (simp add: is_posting_def)
  qed
  have e: "fst (readArbeitsagenturPosting toISOString n ps) = Inr None"
    using assms unfolding read_absent_iff by (simp add: holds_rows_def)
  have f: "(fst (readArbeitsagenturPosting toISOString' i' ps') = Inr None)
       = (alive ps' \<and> find (\<lambda>e. el_id e = entry_id i' ''firma'') (dom ps') = None)"
    by (rule read_absent_iff)
  show ?thesis by (intro conjI a b c d e f)
qed

theorem readArbeitsagenturPosting_rows_witness:
  "holds_rows no_dates 0 2 (listing 2)
   \<and> list_all is_posting (fst (read_rows no_dates 2 0 (listing 2)))
   \<and> fst (readArbeitsagenturPosting no_dates 2 (snd (read_rows no_dates 2 0 (listing 2)))) = Inr None
   \<and> (1::nat) < 2
   \<and> is_posting (fst (readArbeitsagenturPosting no_dates 1 (listing 2)))
   \<and> company_name (the (projr (fst (readArbeitsagenturPosting no_dates 1 (listing 2))))) = ''Muster GmbH''
   \<and> arbeitsagentur_id (the (projr (fst (readArbeitsagenturPosting no_dates 1 (listing 2))))) = ''10001-1''
   \<and> fst (readArbeitsagenturPosting no_dates 2 (listing 2)) = Inr None"
proof -
  have h: "holds_rows no_dates 0 2 (listing 2)" by code_simp
  have l: "(1::nat) < 2" by simp
  have v: "company_name (the (projr (fst (readArbeitsagenturPosting no_dates 1 (listing 2))))) = ''Muster GmbH''
   \<and> arbeitsagentur_id (the (projr (fst (readArbeitsagenturPosting no_dates 1 (listing 2))))) = ''10001-1''"
    by code_simp
  note t = readArbeitsagenturPosting_rows [OF h, of 1 no_dates 0 "listing 0"]
  show ?thesis using h l v t by blast
qed

section \<open>The crawl loop\<close>

lemma pipeline_run_append:
  "pipeline_run en s (xs @ ys)
     = (case pipeline_run en s xs of None \<Rightarrow> None | Some s' \<Rightarrow> pipeline_run en s' ys)"
  by (induction xs arbitrary: s) (auto split: option.splits)

lemma progress_pipeline:
  "progress env f fp = (fp', evs) \<Longrightarrow>
     pipeline_run (enrich env) (pipeline_of fp) evs = Some (pipeline_of fp')"
  by (auto simp: progress_def pipeline_of_def split: option.splits promise.splits if_splits)

lemma await_pipeline_ok:
  "await_finalize env fp = (Inr fp', evs) \<Longrightarrow>
     pipeline_run (enrich env) (pipeline_of fp) evs = Some Idle \<and> pipeline_of fp' = Idle"
  by (auto simp: await_finalize_def pipeline_of_def split: option.splits promise.splits)

lemma await_pipeline_error:
  "await_finalize env fp = (Inl e, evs) \<Longrightarrow>
     pipeline_run (enrich env) (pipeline_of fp) evs \<noteq> None"
  by (auto simp: await_finalize_def pipeline_of_def split: option.splits promise.splits)

lemma close_batch_pipeline:
  "close_batch url fp batch = (fp', batch', evs) \<Longrightarrow> pipeline_of fp = Idle \<Longrightarrow>
     pipeline_run en Idle evs = Some (pipeline_of fp')"
  by (auto simp: close_batch_def pipeline_of_def split: if_splits)

lemma row_absent_step_ok:
  "step_ok (enrich env) (pipeline_of (finalizePromise st))
     (fst (row_absent_step env url it st)) (snd (row_absent_step env url it st))"
proof -
  let ?en = "enrich env"
  obtain a1 ev1 where a1: "await_finalize env (finalizePromise st) = (a1, ev1)"
    by (cases "await_finalize env (finalizePromise st)")
  show ?thesis
  proof (cases a1)
    case (Inl e)
    with a1 await_pipeline_error [of env "finalizePromise st" e ev1] show ?thesis
      by (simp add: row_absent_step_def step_ok_def)
  next
    case (Inr fp1)
    with a1 await_pipeline_ok [of env "finalizePromise st" fp1 ev1]
    have r1: "pipeline_run ?en (pipeline_of (finalizePromise st)) ev1 = Some Idle"
      and i1: "pipeline_of fp1 = Idle" by simp_all
    obtain fp2 postings2 ev2 where c: "close_batch url fp1 (postings st) = (fp2, postings2, ev2)"
      by (cases "close_batch url fp1 (postings st)")
    from close_batch_pipeline [OF c i1]
    have r2: "pipeline_run ?en Idle ev2 = Some (pipeline_of fp2)" .
    obtain fp3 ev3 where p: "progress env (settles_during_load it) fp2 = (fp3, ev3)"
      by (cases "progress env (settles_during_load it) fp2")
    from progress_pipeline [OF p]
    have r3: "pipeline_run ?en (pipeline_of fp2) ev3 = Some (pipeline_of fp3)" .
    have r123: "pipeline_run ?en (pipeline_of (finalizePromise st)) (ev1 @ ev2 @ ev3)
                  = Some (pipeline_of fp3)"
      by (simp add: pipeline_run_append r1 r2 r3)
    show ?thesis
    proof (cases "next_page it")
      case True
      have "row_absent_step env url it st
              = (Continue (st\<lparr>finalizePromise := fp3, postings := postings2\<rparr>), ev1 @ ev2 @ ev3)"
        using a1 Inr c p True by (simp add: row_absent_step_def)
      with r123 show ?thesis by (simp add: step_ok_def)
    next
      case False
      obtain a4 ev4 where a4: "await_finalize env fp3 = (a4, ev4)"
        by (cases "await_finalize env fp3")
      show ?thesis
      proof (cases a4)
        case (Inl e)
        have "row_absent_step env url it st = (Stop (Inl e), ev1 @ ev2 @ ev3 @ ev4)"
          using a1 Inr c p False a4 Inl by (simp add: row_absent_step_def)
        moreover have "pipeline_run ?en (pipeline_of (finalizePromise st)) (ev1 @ ev2 @ ev3 @ ev4) \<noteq> None"
          using await_pipeline_error [of env fp3 e ev4] a4 Inl r123
                pipeline_run_append [of ?en "pipeline_of (finalizePromise st)" "ev1 @ ev2 @ ev3" ev4]
          by simp
        ultimately show ?thesis by (simp add: step_ok_def)
      next
        case (Inr fp4)
        have "row_absent_step env url it st = (Stop (Inr (count st)), ev1 @ ev2 @ ev3 @ ev4)"
          using a1 \<open>a1 = Inr fp1\<close> c p False a4 Inr by (simp add: row_absent_step_def)
        moreover have "pipeline_run ?en (pipeline_of (finalizePromise st)) (ev1 @ ev2 @ ev3 @ ev4) = Some Idle"
          using await_pipeline_ok [of env fp3 fp4 ev4] a4 Inr r123
                pipeline_run_append [of ?en "pipeline_of (finalizePromise st)" "ev1 @ ev2 @ ev3" ev4]
          by simp
        ultimately show ?thesis by (simp add: step_ok_def)
      qed
    qed
  qed
qed

lemma cleanup_step_shape:
  "cleanup_step st = (st1, ev1) \<Longrightarrow>
     finalizePromise st1 = finalizePromise st \<and> (ev1 = [] \<or> ev1 = [Cleanup])"
  by (auto simp: cleanup_step_def split: if_splits)

lemma pipeline_run_cleanup:
  "ev1 = [] \<or> ev1 = [Cleanup] \<Longrightarrow> pipeline_run en s (ev1 @ evs) = pipeline_run en s evs"
  by auto

lemma step_ok_prefix:
  "pipeline_run en s evs = Some s' \<Longrightarrow> step_ok en s' res evs' \<Longrightarrow> step_ok en s res (evs @ evs')"
  by (cases res) (auto simp: step_ok_def pipeline_run_append split: sum.splits)

lemma iteration_step_ok:
  "step_ok (enrich env) (pipeline_of (finalizePromise st))
     (fst (iteration_step env url it st)) (snd (iteration_step env url it st))"
proof -
  let ?en = "enrich env"
  obtain st1 ev1 where c: "cleanup_step st = (st1, ev1)" by (cases "cleanup_step st")
  note cs = cleanup_step_shape [OF c]
  obtain fp2 ev2 where p: "progress env (settles_before_read it) (finalizePromise st1) = (fp2, ev2)"
    by (cases "progress env (settles_before_read it) (finalizePromise st1)")
  from progress_pipeline [OF p] cs
  have r2: "pipeline_run ?en (pipeline_of (finalizePromise st)) ev2 = Some (pipeline_of fp2)"
    by simp
  have r12: "pipeline_run ?en (pipeline_of (finalizePromise st)) (ev1 @ ev2) = Some (pipeline_of fp2)"
    using pipeline_run_cleanup [of ev1 ?en "pipeline_of (finalizePromise st)" ev2] cs r2 by simp
  show ?thesis
  proof (cases "read_result it")
    case (ReadThrows e)
    with c p r12 show ?thesis by (simp add: iteration_step_def step_ok_def)
  next
    case (RowFound found)
    with c p r12 show ?thesis by (simp add: iteration_step_def step_ok_def)
  next
    case RowAbsent
    obtain r ev3 where ra: "row_absent_step env url it (st1\<lparr>finalizePromise := fp2\<rparr>) = (r, ev3)"
      by (cases "row_absent_step env url it (st1\<lparr>finalizePromise := fp2\<rparr>)")
    have ok3: "step_ok ?en (pipeline_of fp2) r ev3"
      using row_absent_step_ok [of env "st1\<lparr>finalizePromise := fp2\<rparr>" url it] ra by simp
    have "iteration_step env url it st = (r, ev1 @ ev2 @ ev3)"
      using c p RowAbsent ra by (simp add: iteration_step_def)
    moreover have "step_ok ?en (pipeline_of (finalizePromise st)) r ((ev1 @ ev2) @ ev3)"
      by (rule step_ok_prefix [OF r12 ok3])
    ultimately show ?thesis by simp
  qed
qed

lemma readPostings_loop_ok:
  "pipeline_run (enrich env) (pipeline_of (finalizePromise st))
      (snd (readPostings_loop env url script st)) \<noteq> None
   \<and> (fst (readPostings_loop env url script st) = Some (Inr n)
        \<longrightarrow> pipeline_run (enrich env) (pipeline_of (finalizePromise st))
              (snd (readPostings_loop env url script st)) = Some Idle)"
proof (induction script arbitrary: st)
  case Nil
  then show ?case by simp
next
  case (Cons it script)
  obtain res evs where s: "iteration_step env url it st = (res, evs)"
    by (cases "iteration_step env url it st")
  have ok: "step_ok (enrich env) (pipeline_of (finalizePromise st)) res evs"
    using iteration_step_ok [of env st url it] s by simp
  show ?case
  proof (cases res)
    case (Stop r)
    with s ok show ?thesis by (cases r) (simp_all add: step_ok_def)
  next
    case (Continue st')
    obtain r evs' where l: "readPostings_loop env url script st' = (r, evs')"
      by (cases "readPostings_loop env url script st'")
    have e: "readPostings_loop env url (it # script) st = (r, evs @ evs')"
      using s Continue l by simp
    have m: "pipeline_run (enrich env) (pipeline_of (finalizePromise st)) evs
               = Some (pipeline_of (finalizePromise st'))"
      using ok Continue by (simp add: step_ok_def)
    show ?thesis unfolding e using Cons.IH [of st'] l m by (simp add: pipeline_run_append)
  qed
qed

lemma pipeline_run_batches:
  "pipeline_run en s evs = Some s' \<Longrightarrow>
     map en (in_flight s) @ map en (started evs) = sunk evs @ map en (in_flight s')"
proof (induction evs arbitrary: s)
  case Nil
  then show ?case by simp
next
  case (Cons ev evs)
  then obtain s1 where s1: "pipeline_step en s ev = Some s1" "pipeline_run en s1 evs = Some s'"
    by (auto split: option.splits)
  note ih = Cons.IH [OF s1(2)]
  show ?case
  proof (cases ev)
    case Cleanup
    with s1 ih show ?thesis by simp
  next
    case (HandOffStarted b)
    with s1 ih show ?thesis by (cases s) (auto simp: in_flight_def)
  next
    case (SinkCalled b)
    with s1 ih show ?thesis by (cases s) (auto simp: in_flight_def split: if_splits)
  next
    case HandOffAwaited
    with s1 ih show ?thesis by (cases s) (auto simp: in_flight_def)
  qed
qed

lemma row_absent_step_stops:
  "\<not> next_page it \<Longrightarrow> \<exists>r. fst (row_absent_step env url it st) = Stop r"
  by (simp add: row_absent_step_def split: prod.splits sum.splits)

lemma iteration_step_stops:
  "read_result it = RowAbsent \<Longrightarrow> \<not> next_page it \<Longrightarrow> \<exists>r. fst (iteration_step env url it st) = Stop r"
proof -
  assume a: "read_result it = RowAbsent" "\<not> next_page it"
  obtain st1 ev1 where c: "cleanup_step st = (st1, ev1)" by (cases "cleanup_step st")
  obtain fp2 ev2 where p: "progress env (settles_before_read it) (finalizePromise st1) = (fp2, ev2)"
    by (cases "progress env (settles_before_read it) (finalizePromise st1)")
  from row_absent_step_stops [OF a(2), of env url "st1\<lparr>finalizePromise := fp2\<rparr>"]
  obtain r where "fst (row_absent_step env url it (st1\<lparr>finalizePromise := fp2\<rparr>)) = Stop r" by blast
  then show ?thesis using c p a(1) by (auto simp: iteration_step_def split: prod.splits)
qed

lemma readPostings_loop_ends:
  "ends script \<Longrightarrow> fst (readPostings_loop env url script st) \<noteq> None"
proof (induction script arbitrary: st)
  case Nil
  then show ?case by (simp add: ends_def)
next
  case (Cons it script)
  obtain res evs where s: "iteration_step env url it st = (res, evs)"
    by (cases "iteration_step env url it st")
  show ?case
  proof (cases res)
    case (Stop r)
    with s show ?thesis by simp
  next
    case (Continue st')
    have "\<not> (read_result it = RowAbsent \<and> \<not> next_page it)"
      using iteration_step_stops [of it env url st] s Continue by auto
    with Cons.prems have "ends script" by (simp add: ends_def)
    from Cons.IH [OF this, of st'] s Continue show ?thesis by (auto split: prod.splits)
  qed
qed

text \<open>
  C1. In every run of \<^verbatim>\<open>readPostings\<close> the events keep the rule of the one-deep pipeline:
  a hand-off is started only when the one before it has been awaited, and the sink is
  called only for the batch in flight. So the batches the sink is called with are, in
  order, the enriched batches whose hand-off was started, up to the last one at most
  (never batch \<open>N + 1\<close> before batch \<open>N\<close>); and when \<^verbatim>\<open>readPostings\<close> returns the row count,
  no hand-off is open: every batch handed off has reached the sink and has been awaited.
  A script in which some iteration finds neither a row nor a next page lets the loop end.
\<close>

theorem readPostings_pipeline_order:
  "pipeline_run (enrich env) Idle (snd (readPostings env url script)) \<noteq> None
   \<and> prefix (sunk (snd (readPostings env url script)))
        (map (enrich env) (started (snd (readPostings env url script))))
   \<and> (fst (readPostings env url script) = Some (Inr n)
        \<longrightarrow> pipeline_run (enrich env) Idle (snd (readPostings env url script)) = Some Idle
            \<and> sunk (snd (readPostings env url script))
                = map (enrich env) (started (snd (readPostings env url script))))
   \<and> (ends script \<and> job_goto env = None \<and> pool_goto env = None
        \<longrightarrow> fst (readPostings env url script) \<noteq> None)"
proof -
  let ?st0 = "\<lparr>finalizePromise = None, count = 0, postings = [], lastCleanup = 0\<rparr>"
  let ?r = "readPostings env url script"
  have i0: "pipeline_of (finalizePromise ?st0) = Idle" by (simp add: pipeline_of_def)
  have run: "pipeline_run (enrich env) Idle (snd ?r) \<noteq> None"
    and ret: "fst ?r = Some (Inr n) \<longrightarrow> pipeline_run (enrich env) Idle (snd ?r) = Some Idle"
    using readPostings_loop_ok [of env ?st0 url script n] i0
    by (simp_all add: readPostings_def split: option.splits)
  from run obtain s' where s': "pipeline_run (enrich env) Idle (snd ?r) = Some s'" by blast
  from pipeline_run_batches [OF s']
  have b: "map (enrich env) (started (snd ?r)) = sunk (snd ?r) @ map (enrich env) (in_flight s')"
    by (simp add: in_flight_def)
  have p: "prefix (sunk (snd ?r)) (map (enrich env) (started (snd ?r)))"
    unfolding b by simp
  have q: "fst ?r = Some (Inr n)
        \<longrightarrow> pipeline_run (enrich env) Idle (snd ?r) = Some Idle
            \<and> sunk (snd ?r) = map (enrich env) (started (snd ?r))"
  proof
    assume "fst ?r = Some (Inr n)"
    with ret s' have "s' = Idle" by simp
    with b s' show "pipeline_run (enrich env) Idle (snd ?r) = Some Idle
            \<and> sunk (snd ?r) = map (enrich env) (started (snd ?r))"
      by (simp add: in_flight_def)
  qed
  have e: "ends script \<and> job_goto env = None \<and> pool_goto env = None \<longrightarrow> fst ?r \<noteq> None"
    using readPostings_loop_ends [of script env url ?st0] by (simp add: readPostings_def)
  show ?thesis by (intro conjI run p q e)
qed

theorem readPostings_pipeline_order_witness:
  "ends two_pages \<and> job_goto plain_env = None \<and> pool_goto plain_env = None
   \<and> fst (readPostings plain_env ''u'' two_pages) = Some (Inr 3)
   \<and> pipeline_run (enrich plain_env) Idle (snd (readPostings plain_env ''u'' two_pages)) = Some Idle
   \<and> sunk (snd (readPostings plain_env ''u'' two_pages))
       = [[(listed 0)\<lparr>from_search_url := Some ''u''\<rparr>, (listed 1)\<lparr>from_search_url := Some ''u''\<rparr>],
          [(listed 2)\<lparr>from_search_url := Some ''u''\<rparr>]]
   \<and> map (enrich plain_env) (started (snd (readPostings plain_env ''u'' two_pages)))
       = sunk (snd (readPostings plain_env ''u'' two_pages))
   \<and> pipeline_run (\<lambda>b. b) Idle [HandOffStarted [listed 0], HandOffStarted [listed 1]] = None
   \<and> pipeline_run (\<lambda>b. b) Idle [HandOffStarted [listed 0], SinkCalled [listed 1]] = None
   \<and> pipeline_run (\<lambda>b. b) Idle [HandOffStarted [listed 0], HandOffAwaited] = None"
proof -
  have a: "ends two_pages \<and> job_goto plain_env = None \<and> pool_goto plain_env = None" by code_simp
  have b: "fst (readPostings plain_env ''u'' two_pages) = Some (Inr 3)" by code_simp
  have c: "sunk (snd (readPostings plain_env ''u'' two_pages))
       = [[(listed 0)\<lparr>from_search_url := Some ''u''\<rparr>, (listed 1)\<lparr>from_search_url := Some ''u''\<rparr>],
          [(listed 2)\<lparr>from_search_url := Some ''u''\<rparr>]]"
    by code_simp
  have d: "pipeline_run (\<lambda>b. b) Idle [HandOffStarted [listed 0], HandOffStarted [listed 1]] = None
   \<and> pipeline_run (\<lambda>b. b) Idle [HandOffStarted [listed 0], SinkCalled [listed 1]] = None
   \<and> pipeline_run (\<lambda>b. b) Idle [HandOffStarted [listed 0], HandOffAwaited] = None"
    by code_simp
  note t = readPostings_pipeline_order [of plain_env "''u''" two_pages 3]
  have r1: "pipeline_run (enrich plain_env) Idle (snd (readPostings plain_env ''u'' two_pages)) = Some Idle"
    using t b by blast
  have r2: "map (enrich plain_env) (started (snd (readPostings plain_env ''u'' two_pages)))
       = sunk (snd (readPostings plain_env ''u'' two_pages))"
    using t b by simp
  show ?thesis using a b r1 c r2 d by blast
qed

end
